theory Spec2Isabelle
  imports Main "HOL-Library.AList"
begin

section \<open>JavaScript values used by the repository\<close>

text \<open>
  A JavaScript string is a sequence of UTF-16 code units and \<open>length\<close> counts them.
  The model keeps the code units below 256 (ASCII and Latin-1), one \<open>char\<close> each, so
  that \<open>length\<close> is the list length. On these code units \<open>toLowerCase\<close> works unit by
  unit: it moves \<open>A\<close>-\<open>Z\<close> and the upper-case Latin-1 letters (192-222 without the
  multiplication sign 215) up by 32 and leaves every other unit alone. The white space
  that \<open>trim\<close> and \<open>parseInt\<close> skip is, below 256: TAB, LF, VT, FF, CR, SP and NBSP.
\<close>

definition isWhiteSpace :: "char \<Rightarrow> bool" where
  "isWhiteSpace c \<longleftrightarrow> (of_char c :: nat) \<in> {9, 10, 11, 12, 13, 32, 160}"

definition trim :: "string \<Rightarrow> string" where
  "trim s = rev (dropWhile isWhiteSpace (rev (dropWhile isWhiteSpace s)))"

definition lowerChar :: "char \<Rightarrow> char" where
  "lowerChar c =
     (let n = (of_char c :: nat)
      in if (65 \<le> n \<and> n \<le> 90) \<or> (192 \<le> n \<and> n \<le> 222 \<and> n \<noteq> 215)
         then char_of (n + 32) else c)"

definition toLowerCase :: "string \<Rightarrow> string" where
  "toLowerCase s = map lowerChar s"

text \<open>
  A JavaScript number is a double. An integer with at most 53 significant bits is
  stored exactly; any other is rounded to the nearest integer that has 53 significant
  bits, a tie going to the one whose last kept bit is even. \<open>roundToDouble\<close> is this
  rounding on integers: \<open>bitLength\<close> counts the significant bits, \<open>e\<close> is the number
  of bits that do not fit, \<open>q\<close> the kept bits and \<open>r\<close> the dropped ones. (Beyond the
  range of a double the source has \<open>Infinity\<close>, which is never a key of a map here.)
\<close>

fun bitLength :: "nat \<Rightarrow> nat" where
  "bitLength n = (if n = 0 then 0 else Suc (bitLength (n div 2)))"

declare bitLength.simps [simp del]

definition roundToDouble :: "int \<Rightarrow> int" where
  "roundToDouble n =
     (let a = nat \<bar>n\<bar>;
          e = bitLength a - 53;
          q = a div 2 ^ e;
          r = a mod 2 ^ e;
          m = (if 2 ^ e < 2 * r \<or> (2 * r = 2 ^ e \<and> odd q) then Suc q else q)
      in sgn n * int (m * 2 ^ e))"

text \<open>
  \<open>Number.parseInt(s, 10)\<close>: skip leading white space, read an optional sign, then the
  longest run of decimal digits, and return the double nearest to that integer; with
  no digit the result is \<open>NaN\<close>, here \<open>None\<close>. What follows the digits is ignored:
  \<open>3abc\<close> reads as 3 and \<open>1.9\<close> as 1. \<open>numberToString\<close> is \<open>String(n)\<close> on the
  integers that print without an exponent.
\<close>

definition isDigit :: "char \<Rightarrow> bool" where
  "isDigit c \<longleftrightarrow> 48 \<le> (of_char c :: nat) \<and> (of_char c :: nat) \<le> 57"

definition digitValue :: "char \<Rightarrow> int" where
  "digitValue c = int (of_char c) - 48"

definition parseDigits :: "string \<Rightarrow> int" where
  "parseDigits ds = foldl (\<lambda>a c. 10 * a + digitValue c) 0 ds"

definition parseInt :: "string \<Rightarrow> int option" where
  "parseInt s =
     (let t = dropWhile isWhiteSpace s;
          sign = (case t of c # _ \<Rightarrow> if c = CHR ''-'' then - 1 else (1::int) | [] \<Rightarrow> 1);
          u = (case t of c # r \<Rightarrow> if c = CHR ''-'' \<or> c = CHR ''+'' then r else t | [] \<Rightarrow> t);
          ds = takeWhile isDigit u
      in if ds = [] then None else Some (roundToDouble (sign * parseDigits ds)))"

fun digits :: "nat \<Rightarrow> string" where
  "digits n = (if n < 10 then [char_of (48 + n)]
               else digits (n div 10) @ [char_of (48 + n mod 10)])"

declare digits.simps [simp del]

definition numberToString :: "int \<Rightarrow> string" where
  "numberToString n = (if n < 0 then CHR ''-'' # digits (nat (- n)) else digits (nat n))"

text \<open>
  \<open>Array.prototype.slice(start, fin)\<close> on integer arguments: a negative argument
  counts from the end of the array, and both are clamped to the array.
\<close>

definition slice :: "'a list \<Rightarrow> int \<Rightarrow> int \<Rightarrow> 'a list" where
  "slice xs start fin =
     (let len = int (length xs);
          k = (if start < 0 then max (len + start) 0 else min start len);
          final = (if fin < 0 then max (len + fin) 0 else min fin len)
      in take (nat (final - k)) (drop (nat k) xs))"

section \<open>Domain entities\<close>

text \<open>
  \<open>CreateUserInput\<close> is \<open>{email, name}\<close>, two strings. A \<open>Date\<close> is its number of
  milliseconds.

  A stored user is the object that \<open>create\<close> or \<open>update\<close> has built. \<open>update\<close>
  builds it with \<open>{...user, ...input, email: ..., updatedAt: ...}\<close>, which copies every
  key of the input, whatever it holds. So only \<open>email\<close> (always a string) and
  \<open>updatedAt\<close> (always a \<open>Date\<close>) keep their types; \<open>id\<close>, \<open>name\<close> and
  \<open>createdAt\<close> hold a JavaScript value, which \<open>create\<close> sets to a number, a string
  and a \<open>Date\<close>.

  An update input is any object that the type \<open>{email?: string, name?: string}\<close>
  accepts: its \<open>email\<close> and \<open>name\<close>, when present, are a string or \<open>undefined\<close>, and
  it may carry other keys, as a \<open>User\<close> passed as the input does. For each of \<open>id\<close>,
  \<open>name\<close> and \<open>createdAt\<close>, \<open>None\<close> is an absent key and \<open>Some v\<close> a key that
  holds \<open>v\<close> (\<open>JUndefined\<close> included). For \<open>email\<close>, \<open>None\<close> is an absent key or
  the value \<open>undefined\<close>, which the source treats alike. A key \<open>updatedAt\<close> is
  overwritten by the source and keys that a \<open>User\<close> does not have are never read:
  both are left out.
\<close>

datatype js_value =
  JUndefined
| JNull
| JBoolean bool
| JNumber int
| JString string
| JDate nat

record CreateUserInput =
  input_email :: string
  input_name :: string

record User =
  user_id :: js_value
  email :: string
  name :: js_value
  createdAt :: js_value
  updatedAt :: nat

record UpdateUserInput =
  id_key :: "js_value option"
  email_key :: "string option"
  name_key :: "js_value option"
  createdAt_key :: "js_value option"

section \<open>InMemoryUserRepository\<close>

text \<open>
  The two \<open>Map\<close>s are association lists in insertion order: \<open>get\<close> is \<open>map_of\<close>,
  \<open>set\<close> is \<open>AList.update\<close> (an existing key keeps its place, a new key goes to the
  end), \<open>delete\<close> is \<open>AList.delete\<close> and \<open>values()\<close> is \<open>map snd\<close>. The clock read by
  \<open>new Date()\<close> is the argument \<open>now\<close>. The counter \<open>nextId\<close> is a number:
  \<open>this.nextId++\<close> stores the double nearest to its successor, so that the counter
  stays at \<open>2^53\<close> once it is there.
\<close>

record InMemoryUserRepository =
  users :: "(int \<times> User) list"
  emailIndex :: "(string \<times> int) list"
  nextId :: int

definition new_repository :: InMemoryUserRepository where
  "new_repository = \<lparr>users = [], emailIndex = [], nextId = 1\<rparr>"

definition findById :: "InMemoryUserRepository \<Rightarrow> string \<Rightarrow> User option" where
  "findById r ident =
     (case parseInt ident of
        None \<Rightarrow> None
      | Some numericId \<Rightarrow> map_of (users r) numericId)"

definition findByEmail :: "InMemoryUserRepository \<Rightarrow> string \<Rightarrow> User option" where
  "findByEmail r e =
     (case map_of (emailIndex r) (toLowerCase e) of
        None \<Rightarrow> None
      | Some i \<Rightarrow> if i = 0 then None else map_of (users r) i)"

definition create ::
  "nat \<Rightarrow> InMemoryUserRepository \<Rightarrow> CreateUserInput \<Rightarrow> User \<times> InMemoryUserRepository" where
  "create now r input =
     (let i = nextId r;
          user = \<lparr>user_id = JNumber i, email = toLowerCase (input_email input),
                  name = JString (input_name input), createdAt = JDate now,
                  updatedAt = now\<rparr>
      in (user, \<lparr>users = AList.update i user (users r),
                 emailIndex = AList.update (email user) i (emailIndex r),
                 nextId = roundToDouble (i + 1)\<rparr>))"

definition update ::
  "nat \<Rightarrow> InMemoryUserRepository \<Rightarrow> string \<Rightarrow> UpdateUserInput
     \<Rightarrow> User option \<times> InMemoryUserRepository" where
  "update now r ident input =
     (case parseInt ident of
        None \<Rightarrow> (None, r)
      | Some numericId \<Rightarrow>
          (case map_of (users r) numericId of
             None \<Rightarrow> (None, r)
           | Some user \<Rightarrow>
               (let updatedUser =
                      \<lparr>user_id = (case id_key input of
                                    Some v \<Rightarrow> v | None \<Rightarrow> user_id user),
                       email = (case email_key input of
                                  Some e \<Rightarrow> toLowerCase e | None \<Rightarrow> email user),
                       name = (case name_key input of
                                 Some v \<Rightarrow> v | None \<Rightarrow> name user),
                       createdAt = (case createdAt_key input of
                                      Some v \<Rightarrow> v | None \<Rightarrow> createdAt user),
                       updatedAt = now\<rparr>;
                    index = (case email_key input of
                               Some e \<Rightarrow>
                                 if e \<noteq> [] \<and> e \<noteq> email user
                                 then AList.update (email updatedUser) numericId
                                        (AList.delete (email user) (emailIndex r))
                                 else emailIndex r
                             | None \<Rightarrow> emailIndex r)
                in (Some updatedUser,
                    r\<lparr>users := AList.update numericId updatedUser (users r),
                      emailIndex := index\<rparr>))))"

definition delete :: "InMemoryUserRepository \<Rightarrow> string \<Rightarrow> bool \<times> InMemoryUserRepository" where
  "delete r ident =
     (case parseInt ident of
        None \<Rightarrow> (False, r)
      | Some numericId \<Rightarrow>
          (case map_of (users r) numericId of
             None \<Rightarrow> (False, r)
           | Some user \<Rightarrow>
               (True, r\<lparr>users := AList.delete numericId (users r),
                        emailIndex := AList.delete (email user) (emailIndex r)\<rparr>)))"

definition list_users :: "InMemoryUserRepository \<Rightarrow> int option \<Rightarrow> int option \<Rightarrow> User list" where
  "list_users r limit_arg offset_arg =
     (let limit = (case limit_arg of None \<Rightarrow> 10 | Some l \<Rightarrow> l);
          offset = (case offset_arg of None \<Rightarrow> 0 | Some off \<Rightarrow> off);
          allUsers = map snd (users r)
      in slice allUsers offset (offset + limit))"

section \<open>Input schema of the create use case\<close>

text \<open>
  \<open>createUserInputSchema\<close> is built with the validation library: a string schema is a
  list of checks that run in the order in which they are chained, each on the current
  value; \<open>trim\<close> replaces the value and the other checks only test it. Parsing
  succeeds when no check has failed. The library's e-mail pattern is not part of this
  repository: it is the parameter \<open>isEmail\<close>. The \<open>unknown\<close> input is either an
  object, whose two fields are \<open>Some s\<close> when they hold a string and \<open>None\<close> when they
  are missing or hold anything else, or not an object at all.
\<close>

datatype check = Email | Min nat | Max nat | Trim

fun run_check :: "(string \<Rightarrow> bool) \<Rightarrow> bool \<times> string \<Rightarrow> check \<Rightarrow> bool \<times> string" where
  "run_check isEmail (ok, s) Email = (ok \<and> isEmail s, s)"
| "run_check isEmail (ok, s) (Min n) = (ok \<and> n \<le> length s, s)"
| "run_check isEmail (ok, s) (Max n) = (ok \<and> length s \<le> n, s)"
| "run_check isEmail (ok, s) Trim = (ok, trim s)"

definition parse_string :: "(string \<Rightarrow> bool) \<Rightarrow> check list \<Rightarrow> string option \<Rightarrow> string option" where
  "parse_string isEmail checks field =
     (case field of
        None \<Rightarrow> None
      | Some s \<Rightarrow>
          (case foldl (run_check isEmail) (True, s) checks of
             (ok, out) \<Rightarrow> if ok then Some out else None))"

definition email_checks :: "check list" where
  "email_checks = [Email, Min 1, Max 255]"

definition name_checks :: "check list" where
  "name_checks = [Min 1, Max 100, Trim]"

datatype unknown_input = NonObject | Object "string option" "string option"

definition createUserInputSchema_safeParse ::
  "(string \<Rightarrow> bool) \<Rightarrow> unknown_input \<Rightarrow> CreateUserInput option" where
  "createUserInputSchema_safeParse isEmail input =
     (case input of
        NonObject \<Rightarrow> None
      | Object e n \<Rightarrow>
          (case (parse_string isEmail email_checks e, parse_string isEmail name_checks n) of
             (Some e', Some n') \<Rightarrow> Some \<lparr>input_email = e', input_name = n'\<rparr>
           | _ \<Rightarrow> None))"

section \<open>Use cases\<close>

text \<open>
  A thrown error is the \<open>Inl\<close> branch of the result. \<open>ValidationError\<close> carries its
  message (its list of issues is left out), \<open>Error\<close> is the built-in class, and
  \<open>OtherError name message\<close> is any other instance of \<open>Error\<close>.
\<close>

datatype error = ValidationError string | Error string | OtherError string string

fun error_name :: "error \<Rightarrow> string" where
  "error_name (ValidationError m) = ''ValidationError''"
| "error_name (Error m) = ''Error''"
| "error_name (OtherError n m) = n"

fun error_message :: "error \<Rightarrow> string" where
  "error_message (ValidationError m) = m"
| "error_message (Error m) = m"
| "error_message (OtherError n m) = m"

definition CreateUserUseCase_execute ::
  "(string \<Rightarrow> bool) \<Rightarrow> nat \<Rightarrow> InMemoryUserRepository \<Rightarrow> unknown_input
     \<Rightarrow> (error + User) \<times> InMemoryUserRepository" where
  "CreateUserUseCase_execute isEmail now r input =
     (case createUserInputSchema_safeParse isEmail input of
        None \<Rightarrow> (Inl (ValidationError ''Invalid input''), r)
      | Some validatedInput \<Rightarrow>
          (case findByEmail r (input_email validatedInput) of
             Some existingUser \<Rightarrow> (Inl (Error ''User with this email already exists''), r)
           | None \<Rightarrow>
               (case create now r \<lparr>input_email = toLowerCase (input_email validatedInput),
                                   input_name = input_name validatedInput\<rparr> of
                  (user, r') \<Rightarrow> (Inr user, r'))))"

text \<open>
  \<open>ListUsersUseCase\<close> sees the repository through its port only: \<open>list_port\<close> is the
  repository's \<open>list\<close>, which may itself throw.
\<close>

record ListUsersInput =
  limit :: "int option"
  offset :: "int option"

record ListUsersResult =
  result_users :: "User list"
  total :: nat

definition ListUsersUseCase_execute ::
  "(int \<Rightarrow> int \<Rightarrow> error + User list) \<Rightarrow> ListUsersInput \<Rightarrow> error + ListUsersResult" where
  "ListUsersUseCase_execute list_port input =
     (let lim = (case limit input of None \<Rightarrow> 10 | Some l \<Rightarrow> l);
          off = (case offset input of None \<Rightarrow> 0 | Some k \<Rightarrow> k)
      in if lim < 1 \<or> lim > 100
         then Inl (ValidationError ''Limit must be between 1 and 100'')
         else (case list_port lim off of
                 Inl e \<Rightarrow> Inl e
               | Inr us \<Rightarrow> Inr \<lparr>result_users = us, total = length us\<rparr>))"

definition in_memory_list :: "InMemoryUserRepository \<Rightarrow> int \<Rightarrow> int \<Rightarrow> error + User list" where
  "in_memory_list r lim off = Inr (list_users r (Some lim) (Some off))"

section \<open>Logger and controller\<close>

text \<open>
  The console is the list of what \<open>console.log\<close> has printed. \<open>ts\<close> is the ISO
  timestamp read inside \<open>log\<close>; the stack trace of a logged error is left out.
\<close>

datatype LogLevel = Trace | Debug | Info | Warn | ErrorLevel | Fatal

datatype console_entry =
  Line string
| ContextDump "(string \<times> string) list"
| ErrorDetails string string

fun levelToNumber :: "LogLevel \<Rightarrow> int" where
  "levelToNumber Trace = 0"
| "levelToNumber Debug = 1"
| "levelToNumber Info = 2"
| "levelToNumber Warn = 3"
| "levelToNumber ErrorLevel = 4"
| "levelToNumber Fatal = 4"

fun level_upper :: "LogLevel \<Rightarrow> string" where
  "level_upper Trace = ''TRACE''"
| "level_upper Debug = ''DEBUG''"
| "level_upper Info = ''INFO''"
| "level_upper Warn = ''WARN''"
| "level_upper ErrorLevel = ''ERROR''"
| "level_upper Fatal = ''FATAL''"

fun colors :: "LogLevel \<Rightarrow> string" where
  "colors Info = char_of (27::nat) # ''[36m''"
| "colors Warn = char_of (27::nat) # ''[33m''"
| "colors ErrorLevel = char_of (27::nat) # ''[31m''"
| "colors Fatal = char_of (27::nat) # ''[38;5;208m''"
| "colors Debug = char_of (27::nat) # ''[94m''"
| "colors Trace = char_of (27::nat) # ''[90m''"

definition ConsoleLoggerService_log ::
  "string \<Rightarrow> LogLevel \<Rightarrow> string \<Rightarrow> error option \<Rightarrow> (string \<times> string) list
     \<Rightarrow> console_entry list \<Rightarrow> console_entry list" where
  "ConsoleLoggerService_log ts level msg err ctx console =
     (let reset = char_of (27::nat) # ''[0m'';
          prefix = colors level @ ''['' @ ts @ ''] '' @ level_upper level @ ''-''
                   @ numberToString (levelToNumber level) @ reset;
          line = prefix @ '' '' @ msg
      in console @ [Line line]
         @ (if ctx \<noteq> [] then [ContextDump ctx] else [])
         @ (case err of
              Some e \<Rightarrow> [ErrorDetails (error_name e) (error_message e)]
            | None \<Rightarrow> []))"

definition ConsoleLoggerService_error ::
  "int \<Rightarrow> string \<Rightarrow> string \<Rightarrow> error option \<Rightarrow> (string \<times> string) list
     \<Rightarrow> console_entry list \<Rightarrow> console_entry list" where
  "ConsoleLoggerService_error logLevel ts msg err ctx console =
     (if logLevel > 4 then console
      else ConsoleLoggerService_log ts ErrorLevel msg err ctx console)"

text \<open>
  What a wrapped computation can throw is any value: an instance of \<open>Error\<close> or
  something else. \<open>BaseController.execute\<close> receives the outcome of awaiting \<open>fn()\<close>
  and the logger's \<open>error\<close> method, which returns \<open>Some t\<close> when it throws \<open>t\<close>
  itself; the result of \<open>execute\<close> is \<open>Inl t\<close> when \<open>t\<close> leaves it.
\<close>

datatype thrown = ErrorInstance error | NonError

datatype 'a ControllerResponse = Success 'a | Failure string string

definition BaseController_execute ::
  "(string \<Rightarrow> error option \<Rightarrow> (string \<times> string) list \<Rightarrow> 'c \<Rightarrow> thrown option \<times> 'c)
     \<Rightarrow> thrown + 'a \<Rightarrow> 'c \<Rightarrow> (thrown + 'a ControllerResponse) \<times> 'c" where
  "BaseController_execute logger_error fn console =
     (case fn of
        Inr data \<Rightarrow> (Inr (Success data), console)
      | Inl thrown_value \<Rightarrow>
          (let errorMessage = (case thrown_value of
                                 ErrorInstance e \<Rightarrow> error_message e
                               | NonError \<Rightarrow> ''An unknown error occurred'');
               errorName = (case thrown_value of
                              ErrorInstance e \<Rightarrow> error_name e
                            | NonError \<Rightarrow> ''UNKNOWN_ERROR'')
           in (case logger_error errorMessage
                     (case thrown_value of ErrorInstance e \<Rightarrow> Some e | NonError \<Rightarrow> None)
                     [(''errorName'', errorName)] console of
                 (Some t, console') \<Rightarrow> (Inl t, console')
               | (None, console') \<Rightarrow> (Inr (Failure errorName errorMessage), console'))))"

definition console_logger_error ::
  "int \<Rightarrow> string \<Rightarrow> string \<Rightarrow> error option \<Rightarrow> (string \<times> string) list
     \<Rightarrow> console_entry list \<Rightarrow> thrown option \<times> console_entry list" where
  "console_logger_error logLevel ts msg err ctx console =
     (None, ConsoleLoggerService_error logLevel ts msg err ctx console)"

section \<open>Histories of repository calls\<close>

text \<open>
  A reachable state of the repository is what a sequence of calls of its three
  mutating methods leaves behind, starting from the new repository. Each call carries
  its arguments and, where the method reads the clock, the time.
\<close>

datatype repo_call =
  Create nat CreateUserInput
| Update nat string UpdateUserInput
| Delete string

fun repo_step :: "InMemoryUserRepository \<Rightarrow> repo_call \<Rightarrow> InMemoryUserRepository" where
  "repo_step r (Create now input) = snd (create now r input)"
| "repo_step r (Update now ident input) = snd (update now r ident input)"
| "repo_step r (Delete ident) = snd (delete r ident)"

definition run_calls :: "InMemoryUserRepository \<Rightarrow> repo_call list \<Rightarrow> InMemoryUserRepository" where
  "run_calls r calls = foldl repo_step r calls"

text \<open>
  \<open>CreateUserUseCase.execute\<close> awaits the repository twice. \<open>CreateUserUseCase_execute\<close>
  above is a call that no other call interrupts. \<open>CreateUserUseCase_lookup\<close> is the
  part of a call up to the answer of \<open>findByEmail\<close>: it gives the error that the call
  throws, or the input that it will pass to \<open>create\<close> when it runs again, on the state
  that the repository has by then.
\<close>

definition CreateUserUseCase_lookup ::
  "(string \<Rightarrow> bool) \<Rightarrow> InMemoryUserRepository \<Rightarrow> unknown_input \<Rightarrow> error + CreateUserInput" where
  "CreateUserUseCase_lookup isEmail r input =
     (case createUserInputSchema_safeParse isEmail input of
        None \<Rightarrow> Inl (ValidationError ''Invalid input'')
      | Some validatedInput \<Rightarrow>
          (case findByEmail r (input_email validatedInput) of
             Some existingUser \<Rightarrow> Inl (Error ''User with this email already exists'')
           | None \<Rightarrow> Inr \<lparr>input_email = toLowerCase (input_email validatedInput),
                            input_name = input_name validatedInput\<rparr>))"

text \<open>
  A client of the repository calls the use case or the repository itself. In a
  history of client calls each call ends before the next one begins.
\<close>

datatype client_call = Execute nat unknown_input | Repo repo_call

fun client_step ::
  "(string \<Rightarrow> bool) \<Rightarrow> InMemoryUserRepository \<Rightarrow> client_call \<Rightarrow> InMemoryUserRepository" where
  "client_step isEmail r (Execute now input) = snd (CreateUserUseCase_execute isEmail now r input)"
| "client_step isEmail r (Repo c) = repo_step r c"

definition run_clients ::
  "(string \<Rightarrow> bool) \<Rightarrow> InMemoryUserRepository \<Rightarrow> client_call list \<Rightarrow> InMemoryUserRepository" where
  "run_clients isEmail r calls = foldl (client_step isEmail) r calls"

text \<open>
  Concrete runs need a concrete e-mail pattern: \<open>simple_email\<close> accepts a string with a
  non-empty part before its first \<open>@\<close> and, after it, a part without \<open>@\<close> that
  contains a dot. It stands in for the library's pattern in concrete runs only; the
  general statements take the pattern as the parameter \<open>isEmail\<close>.
\<close>

definition simple_email :: "string \<Rightarrow> bool" where
  "simple_email s \<longleftrightarrow>
     (let local_part = takeWhile (\<lambda>c. c \<noteq> CHR ''@'') s;
          domain_part = drop (Suc (length local_part)) s
      in local_part \<noteq> [] \<and> length local_part < length s
         \<and> CHR ''@'' \<notin> set domain_part \<and> CHR ''.'' \<in> set domain_part)"

section \<open>Conditions on histories, and invariants\<close>

text \<open>
  \<open>keeps_unique r c\<close>: the call \<open>c\<close>, made in state \<open>r\<close>, does not hand the repository
  an e-mail that another stored user has. A call of the use case and a \<open>delete\<close>
  never do; \<open>create\<close> does not when no stored user has the lower-cased e-mail;
  \<open>update\<close> does not when it carries no e-mail, when no user is stored under the
  given identifier, or when only the user under the given identifier has the
  lower-cased e-mail. A history is \<open>admissible\<close> when each of its calls keeps this
  condition in the state in which it is made. Two calls of the use case that overlap
  are, for the repository, two lookups followed by two calls of \<open>create\<close>: in a
  history the later of them stands as a \<open>create\<close>.
\<close>

fun keeps_unique :: "InMemoryUserRepository \<Rightarrow> client_call \<Rightarrow> bool" where
  "keeps_unique r (Execute now input) = True"
| "keeps_unique r (Repo (Create now input)) =
     (toLowerCase (input_email input) \<notin> (email \<circ> snd) ` set (users r))"
| "keeps_unique r (Repo (Update now ident input)) =
     (case email_key input of
        None \<Rightarrow> True
      | Some e \<Rightarrow> findById r ident = None
                  \<or> (\<forall>(k, u) \<in> set (users r). email u = toLowerCase e \<longrightarrow> parseInt ident = Some k))"
| "keeps_unique r (Repo (Delete ident)) = True"

fun admissible ::
  "(string \<Rightarrow> bool) \<Rightarrow> InMemoryUserRepository \<Rightarrow> client_call list \<Rightarrow> bool" where
  "admissible isEmail r [] = True"
| "admissible isEmail r (c # cs) =
     (keeps_unique r c \<and> admissible isEmail (client_step isEmail r c) cs)"

text \<open>
  Two kinds of \<open>update\<close> calls: one whose input carries a key \<open>id\<close>, and one whose
  input sets the e-mail to the empty string.
\<close>

fun carries_id :: "repo_call \<Rightarrow> bool" where
  "carries_id (Update now ident input) = (id_key input \<noteq> None)"
| "carries_id (Create now input) = False"
| "carries_id (Delete ident) = False"

fun empties_email :: "repo_call \<Rightarrow> bool" where
  "empties_email (Update now ident input) = (email_key input = Some [])"
| "empties_email (Create now input) = False"
| "empties_email (Delete ident) = False"

text \<open>
  \<open>counter_inv\<close>: the counter is between 1 and \<open>2^53\<close>. \<open>keys_inv\<close>: moreover the
  keys of \<open>users\<close> are distinct, positive and below the counter. \<open>ids_inv\<close>: every
  stored user holds, as its \<open>id\<close>, the key under which it is stored. \<open>sound_inv\<close>:
  stored e-mails are in lower case, the identifiers in the e-mail index are below the
  counter, and an index entry that leads to a stored user leads to a user with that
  e-mail. \<open>unique_inv\<close>: the keys are distinct and positive, stored e-mails are in
  lower case and pairwise different, and every stored user with a non-empty e-mail is
  indexed under it.
\<close>

definition counter_inv :: "InMemoryUserRepository \<Rightarrow> bool" where
  "counter_inv r \<longleftrightarrow> 1 \<le> nextId r \<and> nextId r \<le> 2 ^ 53"

definition keys_inv :: "InMemoryUserRepository \<Rightarrow> bool" where
  "keys_inv r \<longleftrightarrow>
     counter_inv r \<and> distinct (map fst (users r))
     \<and> (\<forall>(k, u) \<in> set (users r). 1 \<le> k \<and> k < nextId r)"

definition ids_inv :: "InMemoryUserRepository \<Rightarrow> bool" where
  "ids_inv r \<longleftrightarrow> (\<forall>(k, u) \<in> set (users r). user_id u = JNumber k)"

definition sound_inv :: "InMemoryUserRepository \<Rightarrow> bool" where
  "sound_inv r \<longleftrightarrow>
     keys_inv r
     \<and> (\<forall>(k, u) \<in> set (users r). toLowerCase (email u) = email u)
     \<and> (\<forall>(e, i) \<in> set (emailIndex r). i < nextId r)
     \<and> (\<forall>e i u. map_of (emailIndex r) e = Some i \<and> (i, u) \<in> set (users r)
                 \<longrightarrow> email u = e)"

definition unique_inv :: "InMemoryUserRepository \<Rightarrow> bool" where
  "unique_inv r \<longleftrightarrow>
     counter_inv r \<and> distinct (map fst (users r))
     \<and> (\<forall>(k, u) \<in> set (users r).
           1 \<le> k \<and> toLowerCase (email u) = email u
           \<and> (email u \<noteq> [] \<longrightarrow> map_of (emailIndex r) (email u) = Some k))
     \<and> (\<forall>(k, u) \<in> set (users r). \<forall>(j, w) \<in> set (users r). email u = email w \<longrightarrow> k = j)"

section \<open>Example inputs and states\<close>

definition alice :: CreateUserInput where
  "alice = \<lparr>input_email = ''a@x.io'', input_name = ''Alice''\<rparr>"

definition bob :: CreateUserInput where
  "bob = \<lparr>input_email = ''b@x.io'', input_name = ''Bob''\<rparr>"

definition carol :: CreateUserInput where
  "carol = \<lparr>input_email = ''c@x.io'', input_name = ''Carol''\<rparr>"

definition twin :: CreateUserInput where
  "twin = \<lparr>input_email = ''a@x.io'', input_name = ''Twin''\<rparr>"

definition one_user :: InMemoryUserRepository where
  "one_user = run_calls new_repository [Create 0 alice]"

definition two_users :: InMemoryUserRepository where
  "two_users = run_calls new_repository [Create 0 alice, Create 1 bob]"

definition three_users :: InMemoryUserRepository where
  "three_users = run_calls new_repository [Create 0 alice, Create 1 bob, Create 2 carol]"

definition twin_deleted :: InMemoryUserRepository where
  "twin_deleted = run_calls new_repository [Create 0 alice, Create 1 twin, Delete ''2'']"

text \<open>
  Three update inputs: \<open>{email: "new@x.io", name: undefined}\<close>, \<open>{email: ""}\<close>, and
  the stored user of \<open>alice\<close> passed as the input.
\<close>

definition name_undefined :: UpdateUserInput where
  "name_undefined = \<lparr>id_key = None, email_key = Some ''new@x.io'',
                      name_key = Some JUndefined, createdAt_key = None\<rparr>"

definition empty_email :: UpdateUserInput where
  "empty_email = \<lparr>id_key = None, email_key = Some '''', name_key = None,
                   createdAt_key = None\<rparr>"

definition alice_as_input :: UpdateUserInput where
  "alice_as_input = \<lparr>id_key = Some (JNumber 1), email_key = Some ''a@x.io'',
                      name_key = Some (JString ''Alice''), createdAt_key = Some (JDate 0)\<rparr>"

definition emptied_email :: InMemoryUserRepository where
  "emptied_email = run_calls new_repository [Create 0 alice, Update 5 ''1'' empty_email]"

text \<open>
  The state after as many calls of \<open>create\<close> as bring the counter to \<open>2^53\<close>, and
  two more.
\<close>

definition overflowed :: InMemoryUserRepository where
  "overflowed = run_calls new_repository
     (replicate (2 ^ 53 - 1) (Create 0 alice) @ [Create 1 carol, Create 2 bob])"

definition padded_name :: string where
  "padded_name = CHR '' '' # replicate 100 CHR ''x''"

section \<open>Facts about numbers and strings\<close>

lemma bitLength_le: "n < 2 ^ k \<Longrightarrow> bitLength n \<le> k"
proof (induction k arbitrary: n)
  case 0
  then show ?case by (subst bitLength.simps) simp
next
  case (Suc k)
  show ?case
  proof (cases "n = 0")
    case True
    then show ?thesis by (subst bitLength.simps) simp
  next
    case False
    from Suc.prems have "n div 2 < 2 ^ k" by simp
    then have "bitLength (n div 2) \<le> k" by (rule Suc.IH)
    with False show ?thesis by (subst bitLength.simps) simp
  qed
qed

lemma roundToDouble_exact:
  assumes "\<bar>n\<bar> < 2 ^ 53"
  shows "roundToDouble n = n"
proof -
  have "nat \<bar>n\<bar> < 2 ^ 53" using assms by (simp add: nat_less_iff)
  then have "bitLength (nat \<bar>n\<bar>) - 53 = 0"
    using bitLength_le [of "nat \<bar>n\<bar>" 53] by simp
  then show ?thesis
    by (simp add: roundToDouble_def Let_def mult_sgn_abs)
qed

lemma bitLength_limit:
  "bitLength 9007199254740992 = 54" "bitLength 9007199254740993 = 54"
  by (simp_all add: bitLength.simps)

lemma roundToDouble_limit:
  "roundToDouble 9007199254740992 = 9007199254740992"
  "roundToDouble 9007199254740993 = 9007199254740992"
  by (simp_all add: roundToDouble_def Let_def bitLength_limit)

lemma roundToDouble_succ:
  assumes "1 \<le> i" and "i \<le> 2 ^ 53"
  shows "roundToDouble (i + 1) = (if i < 2 ^ 53 then i + 1 else 2 ^ 53)"
proof (cases "i < 2 ^ 53")
  case True
  show ?thesis
  proof (cases "i + 1 < 2 ^ 53")
    case True
    with assms have "\<bar>i + 1\<bar> < 2 ^ 53" by simp
    with \<open>i < 2 ^ 53\<close> show ?thesis by (simp add: roundToDouble_exact)
  next
    case False
    with True have "i + 1 = 9007199254740992" by simp
    with True show ?thesis by (simp add: roundToDouble_limit)
  qed
next
  case False
  with assms have "i = 9007199254740992" by simp
  then show ?thesis by (simp add: roundToDouble_limit)
qed

lemma roundToDouble_le:
  assumes "\<bar>n\<bar> \<le> 2 ^ 53"
  shows "roundToDouble n = n"
proof -
  have m: "roundToDouble (- 9007199254740992) = - 9007199254740992"
    by (simp add: roundToDouble_def Let_def bitLength_limit)
  from assms have "\<bar>n\<bar> < 2 ^ 53 \<or> n = 9007199254740992 \<or> n = - 9007199254740992" by auto
  then show ?thesis
    using roundToDouble_exact [of n] roundToDouble_limit(1) m by auto
qed

lemma lowerChar_idem: "lowerChar (lowerChar c) = lowerChar c"
proof -
  have lt: "(of_char c :: nat) < 256"
    by (metis of_char_mod_256 mod_less_divisor zero_less_numeral)
  show ?thesis
    using lt by (auto simp: lowerChar_def Let_def)
qed

lemma toLowerCase_idem: "toLowerCase (toLowerCase s) = toLowerCase s"
  by (simp add: toLowerCase_def lowerChar_idem)

lemma length_toLowerCase: "length (toLowerCase s) = length s"
  by (simp add: toLowerCase_def)

lemma toLowerCase_Nil_iff: "toLowerCase s = [] \<longleftrightarrow> s = []"
  by (simp add: toLowerCase_def)

lemma digits_nonempty: "digits n \<noteq> []"
  by (subst digits.simps) simp

lemma isDigit_char_of: "d < 10 \<Longrightarrow> isDigit (char_of (48 + d :: nat))"
  by (simp add: isDigit_def)

lemma digits_all_digit: "c \<in> set (digits n) \<Longrightarrow> isDigit c"
proof (induction n arbitrary: c rule: digits.induct)
  case (1 n)
  show ?case
  proof (cases "n < 10")
    case True
    with "1.prems" show ?thesis
      by (subst (asm) digits.simps) (simp add: isDigit_char_of)
  next
    case False
    have "n mod 10 < 10" by simp
    with False "1.prems" "1.IH" show ?thesis
      by (subst (asm) digits.simps) (auto simp: isDigit_char_of simp del: of_char_of)
  qed
qed

lemma digitValue_char_of: "d < 10 \<Longrightarrow> digitValue (char_of (48 + d :: nat)) = int d"
  by (simp add: digitValue_def)

lemma parseDigits_snoc: "parseDigits (ds @ [c]) = 10 * parseDigits ds + digitValue c"
  by (simp add: parseDigits_def)

lemma parseDigits_digits: "parseDigits (digits n) = int n"
proof (induction n rule: digits.induct)
  case (1 n)
  show ?case
  proof (cases "n < 10")
    case True
    then show ?thesis
      by (subst digits.simps) (simp add: parseDigits_def digitValue_char_of)
  next
    case False
    have m: "n mod 10 < 10" by simp
    have "parseDigits (digits n) = 10 * parseDigits (digits (n div 10)) + int (n mod 10)"
      using False
      by (subst digits.simps)
         (simp add: parseDigits_snoc digitValue_char_of [OF m] del: of_char_of)
    also have "\<dots> = int n"
      using "1.IH" [OF False] by (simp add: zdiv_int zmod_int)
    finally show ?thesis .
  qed
qed

lemma isDigit_not_space:
  "isDigit c \<Longrightarrow> \<not> isWhiteSpace c \<and> c \<noteq> CHR ''-'' \<and> c \<noteq> CHR ''+''"
  by (auto simp: isDigit_def isWhiteSpace_def)

lemma takeWhile_digits: "takeWhile isDigit (digits n) = digits n"
  using digits_all_digit by (simp add: takeWhile_eq_all_conv)

lemma parseInt_digits: "parseInt (digits n) = Some (roundToDouble (int n))"
proof -
  obtain c cs where dc: "digits n = c # cs"
    using digits_nonempty [of n] by (cases "digits n") auto
  have c: "isDigit c"
    using digits_all_digit [of c n] dc by simp
  show ?thesis
    using isDigit_not_space [OF c] takeWhile_digits [of n] parseDigits_digits [of n] dc
    by (simp add: parseInt_def Let_def)
qed

lemma parseInt_numberToString:
  assumes "\<bar>n\<bar> \<le> 2 ^ 53"
  shows "parseInt (numberToString n) = Some n"
proof (cases "n < 0")
  case False
  with assms show ?thesis
    by (simp add: numberToString_def parseInt_digits roundToDouble_le)
next
  case True
  have ws: "\<not> isWhiteSpace CHR ''-''" by (simp add: isWhiteSpace_def)
  have "parseInt (CHR ''-'' # digits (nat (- n)))
          = Some (roundToDouble (- parseDigits (digits (nat (- n)))))"
    using ws digits_nonempty [of "nat (- n)"]
    unfolding parseInt_def Let_def by (simp add: takeWhile_digits)
  then show ?thesis
    using True assms by (simp add: numberToString_def parseDigits_digits roundToDouble_le)
qed

section \<open>Facts about the two maps\<close>

lemma in_set_update_iff:
  assumes "distinct (map fst al)"
  shows "(i, u) \<in> set (AList.update k v al) \<longleftrightarrow> (i = k \<and> u = v) \<or> (i \<noteq> k \<and> (i, u) \<in> set al)"
  using assms by (induction al) (auto simp: image_iff)

lemma in_set_delete_iff:
  "(i, u) \<in> set (AList.delete k al) \<longleftrightarrow> i \<noteq> k \<and> (i, u) \<in> set al"
  by (induction al) auto

lemma in_set_update: "p \<in> set (AList.update k v al) \<Longrightarrow> p = (k, v) \<or> p \<in> set al"
  by (induction al) (auto split: if_splits)

lemma in_set_delete: "p \<in> set (AList.delete k al) \<Longrightarrow> p \<in> set al"
  by (induction al) (auto split: if_splits)

lemma update_fresh: "k \<notin> fst ` set al \<Longrightarrow> AList.update k v al = al @ [(k, v)]"
  by (induction al) auto

section \<open>The counter and the identifiers\<close>

lemma run_calls_snoc: "run_calls r (calls @ [c]) = repo_step (run_calls r calls) c"
  by (simp add: run_calls_def)

lemma run_calls_Cons: "run_calls r (c # calls) = run_calls (repo_step r c) calls"
  by (simp add: run_calls_def)

lemma run_calls_append: "run_calls r (xs @ ys) = run_calls (run_calls r xs) ys"
  by (simp add: run_calls_def)

lemma run_calls_Nil: "run_calls r [] = r"
  by (simp add: run_calls_def)

lemma counter_inv_new: "counter_inv new_repository"
  by (simp add: counter_inv_def new_repository_def)

lemma nextId_create:
  assumes "counter_inv r"
  shows "nextId (snd (create now r input)) = (if nextId r < 2 ^ 53 then nextId r + 1 else 2 ^ 53)"
  using assms roundToDouble_succ [of "nextId r"]
  by (simp add: counter_inv_def create_def Let_def)

lemma nextId_update: "nextId (snd (update now r ident input)) = nextId r"
  by (simp add: update_def Let_def split: option.splits)

lemma nextId_delete: "nextId (snd (delete r ident)) = nextId r"
  by (simp add: delete_def split: option.splits)

lemma counter_inv_step:
  assumes "counter_inv r"
  shows "counter_inv (repo_step r c)"
proof (cases c)
  case (Create now input)
  with assms nextId_create [OF assms, of now input] show ?thesis
    by (auto simp: counter_inv_def)
next
  case (Update now ident input)
  with assms show ?thesis by (simp add: counter_inv_def nextId_update)
next
  case (Delete ident)
  with assms show ?thesis by (simp add: counter_inv_def nextId_delete)
qed

lemma nextId_step_mono:
  assumes "counter_inv r"
  shows "nextId r \<le> nextId (repo_step r c)"
proof (cases c)
  case (Create now input)
  with assms nextId_create [OF assms, of now input] show ?thesis
    by (auto simp: counter_inv_def)
next
  case (Update now ident input)
  then show ?thesis by (simp add: nextId_update)
next
  case (Delete ident)
  then show ?thesis by (simp add: nextId_delete)
qed

lemma counter_inv_run_from: "counter_inv r \<Longrightarrow> counter_inv (run_calls r calls)"
  by (induction calls arbitrary: r) (simp_all add: run_calls_Nil run_calls_Cons counter_inv_step)

lemma counter_inv_run: "counter_inv (run_calls new_repository calls)"
  by (rule counter_inv_run_from [OF counter_inv_new])

lemma nextId_run_mono:
  assumes "counter_inv r"
  shows "nextId r \<le> nextId (run_calls r calls)"
  using assms
proof (induction calls arbitrary: r)
  case Nil
  then show ?case by (simp add: run_calls_Nil)
next
  case (Cons c calls)
  have "nextId r \<le> nextId (repo_step r c)" by (rule nextId_step_mono [OF Cons.prems])
  also have "\<dots> \<le> nextId (run_calls (repo_step r c) calls)"
    by (rule Cons.IH [OF counter_inv_step [OF Cons.prems]])
  finally show ?case by (simp add: run_calls_Cons)
qed

lemma keys_inv_new: "keys_inv new_repository"
  by (simp add: keys_inv_def counter_inv_def new_repository_def)

lemma keys_inv_create:
  assumes "keys_inv r" and "nextId r < 2 ^ 53"
  shows "keys_inv (snd (create now r input))"
proof -
  have c: "counter_inv r" using assms(1) by (simp add: keys_inv_def)
  have n: "nextId (snd (create now r input)) = nextId r + 1"
    using nextId_create [OF c, of now input] assms(2) by simp
  have u: "users (snd (create now r input))
             = AList.update (nextId r) (fst (create now r input)) (users r)"
    by (simp add: create_def Let_def)
  have "counter_inv (snd (create now r input))"
    using counter_inv_step [OF c, of "Create now input"] by simp
  moreover have "distinct (map fst (users (snd (create now r input))))"
    unfolding u using assms(1) by (simp add: keys_inv_def distinct_update)
  moreover have "\<forall>(k, w) \<in> set (users (snd (create now r input))).
                   1 \<le> k \<and> k < nextId (snd (create now r input))"
    unfolding u n using assms(1) c
    by (auto simp: keys_inv_def counter_inv_def dest!: in_set_update)
  ultimately show ?thesis by (simp add: keys_inv_def)
qed

lemma keys_inv_update:
  assumes "keys_inv r"
  shows "keys_inv (snd (update now r ident input))"
proof (cases "parseInt ident")
  case None
  with assms show ?thesis by (simp add: update_def)
next
  case (Some k)
  show ?thesis
  proof (cases "map_of (users r) k")
    case None
    with Some assms show ?thesis by (simp add: update_def)
  next
    case (Some user)
    then have mem: "(k, user) \<in> set (users r)" by (rule map_of_SomeD)
    with assms have "1 \<le> k \<and> k < nextId r"
      unfolding keys_inv_def by blast
    with assms Some \<open>parseInt ident = Some k\<close> show ?thesis
      unfolding keys_inv_def update_def Let_def counter_inv_def
      by (auto simp: distinct_update dest!: in_set_update)
  qed
qed

lemma keys_inv_delete:
  assumes "keys_inv r"
  shows "keys_inv (snd (delete r ident))"
  using assms unfolding keys_inv_def delete_def counter_inv_def
  by (auto simp: distinct_delete split: option.splits dest!: in_set_delete)

lemma keys_inv_step:
  assumes "keys_inv r" and "nextId (repo_step r c) < 2 ^ 53"
  shows "keys_inv (repo_step r c)"
proof (cases c)
  case (Create now input)
  have c: "counter_inv r" using assms(1) by (simp add: keys_inv_def)
  have "nextId r < 2 ^ 53"
    using nextId_step_mono [OF c, of c] assms(2) by simp
  with Create assms(1) show ?thesis by (simp add: keys_inv_create)
next
  case (Update now ident input)
  with assms(1) show ?thesis by (simp add: keys_inv_update)
next
  case (Delete ident)
  with assms(1) show ?thesis by (simp add: keys_inv_delete)
qed

lemma keys_inv_run:
  "nextId (run_calls new_repository calls) < 2 ^ 53 \<Longrightarrow> keys_inv (run_calls new_repository calls)"
proof (induction calls rule: rev_induct)
  case Nil
  then show ?case by (simp add: run_calls_Nil keys_inv_new)
next
  case (snoc c calls)
  have "nextId (run_calls new_repository calls)
          \<le> nextId (repo_step (run_calls new_repository calls) c)"
    by (rule nextId_step_mono [OF counter_inv_run])
  with snoc.prems have "nextId (run_calls new_repository calls) < 2 ^ 53"
    by (simp add: run_calls_snoc)
  then have "keys_inv (run_calls new_repository calls)" by (rule snoc.IH)
  then show ?case
    using snoc.prems by (simp add: run_calls_snoc keys_inv_step)
qed

lemma ids_inv_step:
  assumes "ids_inv r" and "\<not> carries_id c"
  shows "ids_inv (repo_step r c)"
proof (cases c)
  case (Create now input)
  with assms(1) show ?thesis
    unfolding ids_inv_def by (auto simp: create_def Let_def dest!: in_set_update)
next
  case (Delete ident)
  with assms(1) show ?thesis
    unfolding ids_inv_def by (auto simp: delete_def split: option.splits dest!: in_set_delete)
next
  case (Update now ident input)
  with assms(2) have noid: "id_key input = None" by simp
  show ?thesis
  proof (cases "parseInt ident")
    case None
    with Update assms(1) show ?thesis by (simp add: update_def)
  next
    case (Some k)
    show ?thesis
    proof (cases "map_of (users r) k")
      case None
      with Some Update assms(1) show ?thesis by (simp add: update_def)
    next
      case (Some user)
      then have "(k, user) \<in> set (users r)" by (rule map_of_SomeD)
      with assms(1) have "user_id user = JNumber k" unfolding ids_inv_def by blast
      with Update assms(1) Some \<open>parseInt ident = Some k\<close> noid show ?thesis
        unfolding ids_inv_def
        by (auto simp: update_def Let_def dest!: in_set_update)
    qed
  qed
qed

lemma ids_inv_run:
  "\<forall>c \<in> set calls. \<not> carries_id c \<Longrightarrow> ids_inv (run_calls new_repository calls)"
proof (induction calls rule: rev_induct)
  case Nil
  then show ?case by (simp add: run_calls_Nil ids_inv_def new_repository_def)
next
  case (snoc c calls)
  then show ?case by (simp add: run_calls_snoc ids_inv_step)
qed

lemma nextId_replicate_create:
  assumes "counter_inv r"
  shows "nextId (run_calls r (replicate n (Create now input))) = min (nextId r + int n) (2 ^ 53)"
  using assms
proof (induction n arbitrary: r)
  case 0
  then show ?case by (simp add: run_calls_Nil counter_inv_def)
next
  case (Suc n)
  have c: "counter_inv (repo_step r (Create now input))"
    by (rule counter_inv_step [OF Suc.prems])
  have "nextId (run_calls r (replicate (Suc n) (Create now input)))
          = min (nextId (snd (create now r input)) + int n) (2 ^ 53)"
    using Suc.IH [OF c] by (simp add: run_calls_Cons)
  also have "\<dots> = min (nextId r + int (Suc n)) (2 ^ 53)"
    using nextId_create [OF Suc.prems, of now input] Suc.prems
    by (auto simp: counter_inv_def min_def)
  finally show ?case .
qed

lemma user_id_create: "user_id (fst (create now r input)) = JNumber (nextId r)"
  by (simp add: create_def Let_def)

text \<open>
  Claim C10, as amended. Take any state that calls of \<open>create\<close>, \<open>update\<close> and
  \<open>delete\<close> reach from the new repository and in which the counter is still below
  \<open>2^53\<close>. There \<open>create\<close> assigns the counter as the identifier; it is at least 1
  and larger than every key under which a user is stored, and these keys are pairwise
  distinct. Whatever calls follow, deletions included, a later \<open>create\<close> assigns a
  larger identifier: identifiers strictly increase from one \<open>create\<close> to the next and
  none is issued twice. If no \<open>update\<close> of the history carried a key \<open>id\<close>, every
  stored user holds its key as its identifier, so that the stored users have pairwise
  distinct identifiers.
\<close>

theorem identifiers_increase:
  assumes "nextId (run_calls new_repository calls) < 2 ^ 53"
  shows "user_id (fst (create now (run_calls new_repository calls) input))
           = JNumber (nextId (run_calls new_repository calls))
       \<and> 1 \<le> nextId (run_calls new_repository calls)
       \<and> distinct (map fst (users (run_calls new_repository calls)))
       \<and> (\<forall>k \<in> fst ` set (users (run_calls new_repository calls)).
             1 \<le> k \<and> k < nextId (run_calls new_repository calls))
       \<and> user_id (fst (create now'
             (run_calls (snd (create now (run_calls new_repository calls) input)) calls')
             input'))
           = JNumber (nextId
               (run_calls (snd (create now (run_calls new_repository calls) input)) calls'))
       \<and> nextId (run_calls new_repository calls)
           < nextId (run_calls (snd (create now (run_calls new_repository calls) input)) calls')
       \<and> ((\<forall>c \<in> set calls. \<not> carries_id c) \<longrightarrow>
             (\<forall>(k, u) \<in> set (users (run_calls new_repository calls)). user_id u = JNumber k)
             \<and> distinct (map (user_id \<circ> snd) (users (run_calls new_repository calls))))"
proof -
  define r where "r = run_calls new_repository calls"
  have lt: "nextId r < 2 ^ 53" using assms by (simp add: r_def)
  have k: "keys_inv r" unfolding r_def by (rule keys_inv_run [OF assms])
  have c: "counter_inv r" using k by (simp add: keys_inv_def)
  have a1: "user_id (fst (create now r input)) = JNumber (nextId r)"
    by (simp add: create_def Let_def)
  have a2: "1 \<le> nextId r" using c by (simp add: counter_inv_def)
  have a3: "distinct (map fst (users r))" using k by (simp add: keys_inv_def)
  have a4: "\<forall>k \<in> fst ` set (users r). 1 \<le> k \<and> k < nextId r"
    using k unfolding keys_inv_def by auto
  have a5: "user_id (fst (create now' (run_calls (snd (create now r input)) calls') input'))
           = JNumber (nextId (run_calls (snd (create now r input)) calls'))"
    by (simp add: create_def Let_def)
  have n: "nextId (snd (create now r input)) = nextId r + 1"
    using nextId_create [OF c, of now input] lt by simp
  have c': "counter_inv (snd (create now r input))"
    using counter_inv_step [OF c, of "Create now input"] by simp
  have a6: "nextId r < nextId (run_calls (snd (create now r input)) calls')"
    using nextId_run_mono [OF c', of calls'] n by simp
  have a7: "(\<forall>c \<in> set calls. \<not> carries_id c) \<longrightarrow>
             (\<forall>(k, u) \<in> set (users r). user_id u = JNumber k)
             \<and> distinct (map (user_id \<circ> snd) (users r))"
  proof
    assume "\<forall>c \<in> set calls. \<not> carries_id c"
    then have i: "ids_inv r" unfolding r_def by (rule ids_inv_run)
    then have eq: "map (user_id \<circ> snd) (users r) = map (JNumber \<circ> fst) (users r)"
      unfolding ids_inv_def by auto
    have "distinct (map (user_id \<circ> snd) (users r))"
      unfolding eq using a3 by (simp add: distinct_map inj_on_def)
    with i show "(\<forall>(k, u) \<in> set (users r). user_id u = JNumber k)
             \<and> distinct (map (user_id \<circ> snd) (users r))"
      by (simp add: ids_inv_def)
  qed
  show ?thesis
    unfolding r_def [symmetric] using a1 a2 a3 a4 a5 a6 a7 by blast
qed

theorem identifiers_increase_witness:
  "user_id (fst (create 1 (run_calls new_repository [Create 0 alice, Delete ''1'']) bob))
     = JNumber 2
   \<and> nextId (run_calls new_repository [Create 0 alice, Delete ''1''])
       < nextId (run_calls
           (snd (create 1 (run_calls new_repository [Create 0 alice, Delete ''1'']) bob))
           [Delete ''2''])
   \<and> distinct (map (user_id \<circ> snd)
        (users (run_calls new_repository [Create 0 alice, Delete ''1''])))"
proof -
  have h: "nextId (run_calls new_repository [Create 0 alice, Delete ''1'']) < 2 ^ 53"
    by code_simp
  have n: "nextId (run_calls new_repository [Create 0 alice, Delete ''1'']) = 2"
    by code_simp
  have c: "\<forall>c \<in> set [Create 0 alice, Delete ''1'']. \<not> carries_id c"
    by simp
  show ?thesis
    using identifiers_increase [OF h, of 1 bob 3 "[Delete ''2'']" carol] n c
    by simp
qed

text \<open>
  Once the counter is \<open>2^53\<close> it stays there: two calls of \<open>create\<close> in a row
  issue the same identifier. And an \<open>update\<close> whose input carries a key \<open>id\<close>, here
  the stored first user passed as the input, overwrites the stored identifier: two
  stored users hold the identifier 1.
\<close>

theorem identifier_reused:
  "user_id (fst (create 0
      (run_calls new_repository (replicate (2 ^ 53) (Create 0 alice))) bob))
     = JNumber 9007199254740992
   \<and> user_id (fst (create 1
        (snd (create 0 (run_calls new_repository (replicate (2 ^ 53) (Create 0 alice))) bob))
        carol))
     = JNumber 9007199254740992
   \<and> map (user_id \<circ> snd)
        (users (run_calls new_repository [Create 0 alice, Create 1 bob, Update 2 ''2'' alice_as_input]))
     = [JNumber 1, JNumber 1]"
proof -
  define r where "r = run_calls new_repository (replicate (2 ^ 53) (Create 0 alice))"
  have "nextId r = min (nextId new_repository + int (2 ^ 53)) (2 ^ 53)"
    unfolding r_def by (rule nextId_replicate_create [OF counter_inv_new])
  then have n: "nextId r = 9007199254740992"
    by (simp add: new_repository_def)
  have c: "counter_inv r" unfolding r_def by (rule counter_inv_run)
  have n': "nextId (snd (create 0 r bob)) = 9007199254740992"
    using nextId_create [OF c, of 0 bob] n by simp
  have a: "user_id (fst (create 0 r bob)) = JNumber 9007199254740992"
    using n by (simp add: user_id_create)
  have b: "user_id (fst (create 1 (snd (create 0 r bob)) carol)) = JNumber 9007199254740992"
    using n' by (simp add: user_id_create)
  have d: "map (user_id \<circ> snd)
        (users (run_calls new_repository [Create 0 alice, Create 1 bob, Update 2 ''2'' alice_as_input]))
     = [JNumber 1, JNumber 1]"
    by code_simp
  show ?thesis
    unfolding r_def [symmetric] using a b d by simp
qed

section \<open>Lookups that find nothing\<close>

lemma sound_inv_new: "sound_inv new_repository"
  by (simp add: sound_inv_def keys_inv_def counter_inv_def new_repository_def)

lemma sound_inv_create:
  assumes inv: "sound_inv r" and lt: "nextId r < 2 ^ 53"
  shows "sound_inv (snd (create now r input))"
proof -
  define user where "user = fst (create now r input)"
  define r' where "r' = snd (create now r input)"
  have k: "keys_inv r" using inv by (simp add: sound_inv_def)
  have c: "counter_inv r" using k by (simp add: keys_inv_def)
  have d: "distinct (map fst (users r))" using k by (simp add: keys_inv_def)
  have n: "nextId r' = nextId r + 1"
    unfolding r'_def using nextId_create [OF c, of now input] lt by simp
  have us: "users r' = AList.update (nextId r) user (users r)"
    by (simp add: r'_def user_def create_def Let_def)
  have ix: "emailIndex r' = AList.update (email user) (nextId r) (emailIndex r)"
    by (simp add: r'_def user_def create_def Let_def)
  have em: "toLowerCase (email user) = email user"
    by (simp add: user_def create_def Let_def toLowerCase_idem)
  have old_keys: "\<And>i u. (i, u) \<in> set (users r) \<Longrightarrow> i < nextId r"
    using k unfolding keys_inv_def by blast
  have old_low: "\<And>i u. (i, u) \<in> set (users r) \<Longrightarrow> toLowerCase (email u) = email u"
    using inv unfolding sound_inv_def by blast
  have old_ix: "\<And>e i. (e, i) \<in> set (emailIndex r) \<Longrightarrow> i < nextId r"
    using inv unfolding sound_inv_def by blast
  have old_sound: "\<And>e i u. map_of (emailIndex r) e = Some i \<Longrightarrow> (i, u) \<in> set (users r)
                      \<Longrightarrow> email u = e"
    using inv unfolding sound_inv_def by blast
  have k': "keys_inv r'" unfolding r'_def by (rule keys_inv_create [OF k lt])
  have low': "\<forall>(i, u) \<in> set (users r'). toLowerCase (email u) = email u"
    unfolding us using em old_low by (auto dest!: in_set_update)
  have ix': "\<forall>(e, i) \<in> set (emailIndex r'). i < nextId r'"
    unfolding ix n using old_ix by (force dest!: in_set_update)
  have sound': "\<forall>e i u. map_of (emailIndex r') e = Some i \<and> (i, u) \<in> set (users r')
                  \<longrightarrow> email u = e"
  proof (intro allI impI, elim conjE)
    fix e i u
    assume m: "map_of (emailIndex r') e = Some i" and u: "(i, u) \<in> set (users r')"
    from u have u': "(i = nextId r \<and> u = user) \<or> (i \<noteq> nextId r \<and> (i, u) \<in> set (users r))"
      unfolding us by (simp add: in_set_update_iff [OF d])
    show "email u = e"
    proof (cases "e = email user")
      case True
      with m have "i = nextId r" by (simp add: ix update_conv')
      with u' old_keys True show ?thesis by auto
    next
      case False
      with m have mo: "map_of (emailIndex r) e = Some i" by (simp add: ix update_conv')
      then have "(e, i) \<in> set (emailIndex r)" by (rule map_of_SomeD)
      then have "i < nextId r" by (rule old_ix)
      with u' have "(i, u) \<in> set (users r)" by auto
      with mo show ?thesis by (rule old_sound)
    qed
  qed
  show ?thesis
    unfolding r'_def [symmetric] sound_inv_def using k' low' ix' sound' by blast
qed

lemma sound_inv_delete:
  assumes inv: "sound_inv r"
  shows "sound_inv (snd (delete r ident))"
proof (cases "parseInt ident")
  case None
  with inv show ?thesis by (simp add: delete_def)
next
  case (Some k)
  show ?thesis
  proof (cases "map_of (users r) k")
    case None
    with Some inv show ?thesis by (simp add: delete_def)
  next
    case (Some user)
    define r' where "r' = snd (delete r ident)"
    have us: "users r' = AList.delete k (users r)"
      and ix: "emailIndex r' = AList.delete (email user) (emailIndex r)"
      and n: "nextId r' = nextId r"
      using Some \<open>parseInt ident = Some k\<close> by (simp_all add: r'_def delete_def)
    have k': "keys_inv r'"
      unfolding r'_def using inv by (simp add: sound_inv_def keys_inv_delete)
    have low': "\<forall>(i, u) \<in> set (users r'). toLowerCase (email u) = email u"
      unfolding us using inv unfolding sound_inv_def by (auto dest!: in_set_delete)
    have ix': "\<forall>(e, i) \<in> set (emailIndex r'). i < nextId r'"
      unfolding ix n using inv unfolding sound_inv_def by (auto dest!: in_set_delete)
    have sound': "\<forall>e i u. map_of (emailIndex r') e = Some i \<and> (i, u) \<in> set (users r')
                  \<longrightarrow> email u = e"
    proof (intro allI impI, elim conjE)
      fix e i u
      assume m: "map_of (emailIndex r') e = Some i" and u: "(i, u) \<in> set (users r')"
      from m have "map_of (emailIndex r) e = Some i"
        unfolding ix by (simp add: delete_conv' split: if_splits)
      moreover from u have "(i, u) \<in> set (users r)"
        unfolding us by (rule in_set_delete)
      ultimately show "email u = e"
        using inv unfolding sound_inv_def by blast
    qed
    show ?thesis
      unfolding r'_def [symmetric] sound_inv_def using k' low' ix' sound' by blast
  qed
qed

lemma sound_inv_update:
  assumes inv: "sound_inv r" and ne: "email_key input \<noteq> Some []"
  shows "sound_inv (snd (update now r ident input))"
proof (cases "parseInt ident")
  case None
  with inv show ?thesis by (simp add: update_def)
next
  case (Some k)
  show ?thesis
  proof (cases "map_of (users r) k")
    case None
    with Some inv show ?thesis by (simp add: update_def)
  next
    case (Some user)
    define r' where "r' = snd (update now r ident input)"
    define user' where "user' = the (fst (update now r ident input))"
    have kin: "(k, user) \<in> set (users r)" using Some by (rule map_of_SomeD)
    have kinv: "keys_inv r" using inv by (simp add: sound_inv_def)
    have d: "distinct (map fst (users r))" using kinv by (simp add: keys_inv_def)
    have klt: "k < nextId r" using kinv kin unfolding keys_inv_def by blast
    have ulow: "toLowerCase (email user) = email user"
      using inv kin unfolding sound_inv_def by blast
    have old_ix: "\<And>e i. (e, i) \<in> set (emailIndex r) \<Longrightarrow> i < nextId r"
      using inv unfolding sound_inv_def by blast
    have old_sound: "\<And>e i u. map_of (emailIndex r) e = Some i \<Longrightarrow> (i, u) \<in> set (users r)
                      \<Longrightarrow> email u = e"
      using inv unfolding sound_inv_def by blast
    have us: "users r' = AList.update k user' (users r)"
      and n: "nextId r' = nextId r"
      using Some \<open>parseInt ident = Some k\<close>
      by (simp_all add: r'_def user'_def update_def Let_def)
    have em: "email user' = (case email_key input of
                               Some e \<Rightarrow> toLowerCase e | None \<Rightarrow> email user)"
      using Some \<open>parseInt ident = Some k\<close> by (simp add: user'_def update_def Let_def)
    have ix: "emailIndex r' = (case email_key input of
                 Some e \<Rightarrow> if e \<noteq> [] \<and> e \<noteq> email user
                   then AList.update (toLowerCase e) k (AList.delete (email user) (emailIndex r))
                   else emailIndex r
               | None \<Rightarrow> emailIndex r)"
      using Some \<open>parseInt ident = Some k\<close>
      by (simp add: r'_def update_def Let_def split: option.splits)
    have mem: "\<And>i u. (i, u) \<in> set (users r')
                 \<longleftrightarrow> (i = k \<and> u = user') \<or> (i \<noteq> k \<and> (i, u) \<in> set (users r))"
      unfolding us by (rule in_set_update_iff [OF d])
    have k': "keys_inv r'"
      unfolding r'_def by (rule keys_inv_update [OF kinv])
    have low_user': "toLowerCase (email user') = email user'"
      unfolding em using ulow by (simp add: toLowerCase_idem split: option.splits)
    have low': "\<forall>(i, u) \<in> set (users r'). toLowerCase (email u) = email u"
      using low_user' inv unfolding sound_inv_def by (auto simp: mem)
    have ix': "\<forall>(e, i) \<in> set (emailIndex r'). i < nextId r'"
      unfolding ix n using old_ix klt
      by (auto split: option.splits if_splits dest!: in_set_update in_set_delete)
    have sound': "\<forall>e i u. map_of (emailIndex r') e = Some i \<and> (i, u) \<in> set (users r')
                  \<longrightarrow> email u = e"
    proof (intro allI impI, elim conjE)
      fix e i u
      assume m: "map_of (emailIndex r') e = Some i" and u: "(i, u) \<in> set (users r')"
      show "email u = e"
      proof (cases "\<exists>e0. email_key input = Some e0 \<and> e0 \<noteq> [] \<and> e0 \<noteq> email user")
        case True
        then obtain e0 where e0: "email_key input = Some e0" "e0 \<noteq> []" "e0 \<noteq> email user"
          by blast
        have ix0: "map_of (emailIndex r')
                     = ((map_of (emailIndex r))(email user := None))(toLowerCase e0 \<mapsto> k)"
          using e0 by (simp add: ix update_conv' delete_conv')
        have em0: "email user' = toLowerCase e0" using e0 by (simp add: em)
        show ?thesis
        proof (cases "e = toLowerCase e0")
          case True
          with m have "i = k" by (simp add: ix0)
          with u have "u = user'" by (simp add: mem)
          with em0 True show ?thesis by simp
        next
          case False
          with m have ne: "e \<noteq> email user" and mo: "map_of (emailIndex r) e = Some i"
            by (auto simp: ix0 split: if_splits)
          have "i \<noteq> k"
          proof
            assume "i = k"
            with mo kin have "email user = e" using old_sound by blast
            with ne show False by simp
          qed
          with u have "(i, u) \<in> set (users r)" by (simp add: mem)
          with mo show ?thesis by (rule old_sound)
        qed
      next
        case False
        then have same_ix: "emailIndex r' = emailIndex r"
          by (auto simp: ix split: option.splits)
        from False ne have same_em: "email user' = email user"
          using ulow by (auto simp: em split: option.splits)
        from m have mo: "map_of (emailIndex r) e = Some i" by (simp add: same_ix)
        show ?thesis
        proof (cases "i = k")
          case True
          with u have "u = user'" by (simp add: mem)
          moreover from mo kin True have "email user = e" using old_sound by blast
          ultimately show ?thesis using same_em by simp
        next
          case False
          with u have "(i, u) \<in> set (users r)" by (simp add: mem)
          with mo show ?thesis by (rule old_sound)
        qed
      qed
    qed
    show ?thesis
      unfolding r'_def [symmetric] sound_inv_def using k' low' ix' sound' by blast
  qed
qed

lemma sound_inv_step:
  assumes "sound_inv r" and "\<not> empties_email c" and "nextId (repo_step r c) < 2 ^ 53"
  shows "sound_inv (repo_step r c)"
proof (cases c)
  case (Create now input)
  have c: "counter_inv r" using assms(1) by (simp add: sound_inv_def keys_inv_def)
  have "nextId r < 2 ^ 53"
    using nextId_step_mono [OF c, of c] assms(3) by simp
  with Create assms(1) show ?thesis by (simp add: sound_inv_create)
next
  case (Update now ident input)
  with assms(1,2) show ?thesis by (simp add: sound_inv_update)
next
  case (Delete ident)
  with assms(1) show ?thesis by (simp add: sound_inv_delete)
qed

lemma sound_inv_run:
  assumes "\<forall>c \<in> set calls. \<not> empties_email c"
    and "nextId (run_calls new_repository calls) < 2 ^ 53"
  shows "sound_inv (run_calls new_repository calls)"
  using assms
proof (induction calls rule: rev_induct)
  case Nil
  then show ?case by (simp add: run_calls_Nil sound_inv_new)
next
  case (snoc c calls)
  have "nextId (run_calls new_repository calls)
          \<le> nextId (repo_step (run_calls new_repository calls) c)"
    by (rule nextId_step_mono [OF counter_inv_run])
  with snoc.prems have "nextId (run_calls new_repository calls) < 2 ^ 53"
    by (simp add: run_calls_snoc)
  with snoc have "sound_inv (run_calls new_repository calls)" by simp
  then show ?case
    using snoc.prems by (simp add: run_calls_snoc sound_inv_step)
qed

lemma findByEmail_absent:
  assumes inv: "sound_inv r"
    and absent: "toLowerCase e \<notin> (email \<circ> snd) ` set (users r)"
  shows "findByEmail r e = None"
proof (cases "map_of (emailIndex r) (toLowerCase e)")
  case None
  then show ?thesis by (simp add: findByEmail_def)
next
  case (Some i)
  show ?thesis
  proof (cases "map_of (users r) i")
    case None
    with Some show ?thesis by (simp add: findByEmail_def)
  next
    case (Some u)
    then have "(i, u) \<in> set (users r)" by (rule map_of_SomeD)
    with inv \<open>map_of (emailIndex r) (toLowerCase e) = Some i\<close>
    have "email u = toLowerCase e" unfolding sound_inv_def by blast
    with \<open>(i, u) \<in> set (users r)\<close> have "toLowerCase e \<in> (email \<circ> snd) ` set (users r)"
      by force
    with absent show ?thesis by simp
  qed
qed

text \<open>
  Claim C5, as amended. The result type of each lookup has no error branch: a missing
  entity is \<open>None\<close> (null) or \<open>False\<close>. For every identifier string that
  \<open>parseInt\<close> reads as \<open>NaN\<close> or as a number that is no key of \<open>users\<close>,
  \<open>findById\<close> and \<open>update\<close> return null, \<open>delete\<close> returns false, and the
  repository is left as it was. (\<open>parseInt\<close> reads the leading integer of the string:
  \<open>3abc\<close> and \<open>1.9\<close> identify the users 3 and 1.) For every e-mail whose
  lower-case form no stored user has, \<open>findByEmail\<close> returns null in every state
  that calls of \<open>create\<close>, \<open>update\<close> and \<open>delete\<close> reach from the new repository
  with no \<open>update\<close> to the empty e-mail and with the counter below \<open>2^53\<close>.
\<close>

theorem missing_entities_give_null:
  "((parseInt ident = None \<or> (\<exists>k. parseInt ident = Some k \<and> k \<notin> fst ` set (users r)))
      \<longrightarrow> findById r ident = None
          \<and> update now r ident input = (None, r)
          \<and> delete r ident = (False, r))
   \<and> ((\<forall>c \<in> set calls. \<not> empties_email c)
        \<and> nextId (run_calls new_repository calls) < 2 ^ 53
        \<and> toLowerCase e \<notin> (email \<circ> snd) ` set (users (run_calls new_repository calls))
      \<longrightarrow> findByEmail (run_calls new_repository calls) e = None)"
proof (intro conjI impI)
  assume h: "parseInt ident = None \<or> (\<exists>k. parseInt ident = Some k \<and> k \<notin> fst ` set (users r))"
  have look: "(case parseInt ident of None \<Rightarrow> None | Some k \<Rightarrow> map_of (users r) k) = None"
    using h by (auto simp: map_of_eq_None_iff)
  show "findById r ident = None"
    using look by (simp add: findById_def)
  show "update now r ident input = (None, r)"
  proof (cases "parseInt ident")
    case None
    then show ?thesis by (simp add: update_def)
  next
    case (Some k)
    with look have "map_of (users r) k = None" by simp
    with Some show ?thesis by (simp add: update_def)
  qed
  show "delete r ident = (False, r)"
  proof (cases "parseInt ident")
    case None
    then show ?thesis by (simp add: delete_def)
  next
    case (Some k)
    with look have "map_of (users r) k = None" by simp
    with Some show ?thesis by (simp add: delete_def)
  qed
next
  assume h: "(\<forall>c \<in> set calls. \<not> empties_email c)
        \<and> nextId (run_calls new_repository calls) < 2 ^ 53
        \<and> toLowerCase e \<notin> (email \<circ> snd) ` set (users (run_calls new_repository calls))"
  then have "sound_inv (run_calls new_repository calls)"
    by (simp add: sound_inv_run)
  with h show "findByEmail (run_calls new_repository calls) e = None"
    by (simp add: findByEmail_absent)
qed

theorem missing_entities_give_null_witness:
  "findById one_user ''abc'' = None
   \<and> findById one_user ''999'' = None
   \<and> update 5 one_user ''999'' name_undefined = (None, one_user)
   \<and> delete one_user ''abc'' = (False, one_user)
   \<and> findByEmail one_user ''nonexistent@example.com'' = None"
proof -
  have p1: "parseInt ''abc'' = None" by code_simp
  have p2: "parseInt ''999'' = Some 999" by code_simp
  have k2: "(999::int) \<notin> fst ` set (users one_user)" by code_simp
  have h1: "parseInt ''abc'' = None
            \<or> (\<exists>k. parseInt ''abc'' = Some k \<and> k \<notin> fst ` set (users one_user))"
    using p1 by simp
  have h2: "parseInt ''999'' = None
            \<or> (\<exists>k. parseInt ''999'' = Some k \<and> k \<notin> fst ` set (users one_user))"
    using p2 k2 by simp
  have o: "one_user = run_calls new_repository [Create 0 alice]"
    by (simp add: one_user_def)
  have c: "\<forall>c \<in> set [Create 0 alice]. \<not> empties_email c" by simp
  have n: "nextId (run_calls new_repository [Create 0 alice]) < 2 ^ 53" by code_simp
  have e: "toLowerCase ''nonexistent@example.com''
             \<notin> (email \<circ> snd) ` set (users (run_calls new_repository [Create 0 alice]))"
    by code_simp
  show ?thesis
    using missing_entities_give_null
        [of "''abc''" one_user 5 name_undefined "[Create 0 alice]" "''nonexistent@example.com''"]
      missing_entities_give_null
        [of "''999''" one_user 5 name_undefined "[Create 0 alice]" "''nonexistent@example.com''"]
      h1 h2 c n e
    unfolding o by blast
qed

lemma emails_replicate_create:
  "(k, u) \<in> set (users (run_calls r (replicate n (Create now input))))
     \<Longrightarrow> (k, u) \<in> set (users r) \<or> email u = toLowerCase (input_email input)"
proof (induction n arbitrary: r)
  case 0
  then show ?case by (simp add: run_calls_Nil)
next
  case (Suc n)
  from Suc.prems have "(k, u) \<in> set (users (run_calls (snd (create now r input))
                          (replicate n (Create now input))))"
    by (simp add: run_calls_Cons)
  then have "(k, u) \<in> set (users (snd (create now r input)))
             \<or> email u = toLowerCase (input_email input)"
    by (rule Suc.IH)
  then show ?case
    by (auto simp: create_def Let_def dest!: in_set_update)
qed

text \<open>
  Once the counter has reached \<open>2^53\<close> every \<open>create\<close> stores its user under that
  same key: the user of the last call replaces the one before, whose e-mail stays in
  the index.
\<close>

lemma overflowed_facts:
  "''c@x.io'' \<notin> (email \<circ> snd) ` set (users overflowed)"
  "findByEmail overflowed ''c@x.io''
     = Some \<lparr>user_id = JNumber 9007199254740992, email = ''b@x.io'', name = JString ''Bob'',
             createdAt = JDate 2, updatedAt = 2\<rparr>"
proof -
  define r1 where "r1 = run_calls new_repository (replicate (2 ^ 53 - 1) (Create 0 alice))"
  define r2 where "r2 = snd (create 1 r1 carol)"
  have o: "overflowed = snd (create 2 r2 bob)"
    by (simp add: overflowed_def r1_def r2_def run_calls_append run_calls_Cons run_calls_Nil)
  have "nextId r1 = min (nextId new_repository + int (2 ^ 53 - 1)) (2 ^ 53)"
    unfolding r1_def by (rule nextId_replicate_create [OF counter_inv_new])
  then have n1: "nextId r1 = 9007199254740992"
    by (simp add: new_repository_def)
  have c1: "counter_inv r1" unfolding r1_def by (rule counter_inv_run)
  have n2: "nextId r2 = 9007199254740992"
    unfolding r2_def using nextId_create [OF c1, of 1 carol] n1 by simp
  have low: "toLowerCase ''a@x.io'' = ''a@x.io''" "toLowerCase ''b@x.io'' = ''b@x.io''"
    "toLowerCase ''c@x.io'' = ''c@x.io''"
    by code_simp+
  define bobU where "bobU = \<lparr>user_id = JNumber 9007199254740992, email = ''b@x.io'',
             name = JString ''Bob'', createdAt = JDate 2, updatedAt = 2\<rparr>"
  define carolU where "carolU = \<lparr>user_id = JNumber 9007199254740992, email = ''c@x.io'',
             name = JString ''Carol'', createdAt = JDate 1, updatedAt = 1\<rparr>"
  have us2: "users r2 = AList.update 9007199254740992 carolU (users r1)"
    unfolding r2_def
    by (simp add: create_def Let_def n1 carolU_def carol_def low)
  have ix2: "emailIndex r2 = AList.update ''c@x.io'' 9007199254740992 (emailIndex r1)"
    unfolding r2_def
    by (simp add: create_def Let_def n1 carol_def low)
  have "users overflowed = AList.update 9007199254740992 bobU (users r2)"
    unfolding o
    by (simp add: create_def Let_def n2 bobU_def bob_def low)
  then have us: "users overflowed = AList.update 9007199254740992 bobU (users r1)"
    by (simp add: us2)
  have "emailIndex overflowed = AList.update ''b@x.io'' 9007199254740992 (emailIndex r2)"
    unfolding o
    by (simp add: create_def Let_def n2 bob_def low)
  then have ix: "map_of (emailIndex overflowed) ''c@x.io'' = Some 9007199254740992"
    by (simp add: ix2 update_conv')
  have "map_of (users overflowed) 9007199254740992 = Some bobU"
    by (simp add: us update_conv')
  with ix show "findByEmail overflowed ''c@x.io''
     = Some \<lparr>user_id = JNumber 9007199254740992, email = ''b@x.io'', name = JString ''Bob'',
             createdAt = JDate 2, updatedAt = 2\<rparr>"
    by (simp add: findByEmail_def low bobU_def)
  have "\<And>k u. (k, u) \<in> set (users overflowed) \<Longrightarrow> email u \<noteq> ''c@x.io''"
  proof -
    fix k u assume "(k, u) \<in> set (users overflowed)"
    then have "(k, u) = (9007199254740992, bobU) \<or> (k, u) \<in> set (users r1)"
      unfolding us by (rule in_set_update)
    then show "email u \<noteq> ''c@x.io''"
    proof
      assume "(k, u) = (9007199254740992, bobU)"
      then show ?thesis by (simp add: bobU_def)
    next
      assume "(k, u) \<in> set (users r1)"
      then have "(k, u) \<in> set (users new_repository)
                 \<or> email u = toLowerCase (input_email alice)"
        unfolding r1_def by (rule emails_replicate_create)
      then show ?thesis by (simp add: new_repository_def alice_def low)
    qed
  qed
  then show "''c@x.io'' \<notin> (email \<circ> snd) ` set (users overflowed)"
    by force
qed

text \<open>
  A string that is no number reaches a stored user when it begins with one: \<open>3abc\<close>
  finds user 3 and \<open>1.9\<close> deletes user 1. And \<open>update\<close> rewrites the index only for
  a non-empty new e-mail: after an update to the empty e-mail no stored user has the
  old e-mail, yet \<open>findByEmail\<close> still answers for it. So it does once the counter
  stands at \<open>2^53\<close>: no stored user has the e-mail of the user that was replaced, and
  \<open>findByEmail\<close> answers for it with the user that replaced it.
\<close>

theorem lenient_id_and_stale_email:
  "findById three_users ''3abc''
     = Some \<lparr>user_id = JNumber 3, email = ''c@x.io'', name = JString ''Carol'',
             createdAt = JDate 2, updatedAt = 2\<rparr>
   \<and> fst (delete three_users ''1.9'') = True
   \<and> map (email \<circ> snd) (users emptied_email) = ['''']
   \<and> findByEmail emptied_email ''a@x.io''
     = Some \<lparr>user_id = JNumber 1, email = '''', name = JString ''Alice'',
             createdAt = JDate 0, updatedAt = 5\<rparr>
   \<and> ''c@x.io'' \<notin> (email \<circ> snd) ` set (users overflowed)
   \<and> findByEmail overflowed ''c@x.io''
     = Some \<lparr>user_id = JNumber 9007199254740992, email = ''b@x.io'', name = JString ''Bob'',
             createdAt = JDate 2, updatedAt = 2\<rparr>"
proof -
  have a: "findById three_users ''3abc''
     = Some \<lparr>user_id = JNumber 3, email = ''c@x.io'', name = JString ''Carol'',
             createdAt = JDate 2, updatedAt = 2\<rparr>
   \<and> fst (delete three_users ''1.9'') = True
   \<and> map (email \<circ> snd) (users emptied_email) = ['''']
   \<and> findByEmail emptied_email ''a@x.io''
     = Some \<lparr>user_id = JNumber 1, email = '''', name = JString ''Alice'',
             createdAt = JDate 0, updatedAt = 5\<rparr>"
    by code_simp
  show ?thesis
    using a overflowed_facts by blast
qed

section \<open>Updating a stored user\<close>

text \<open>
  What \<open>update\<close> returns for a stored user, and stores under its key: every key of
  the input other than \<open>email\<close> replaces the stored value, whatever it holds.
\<close>

lemma update_result:
  assumes "findById r ident = Some user"
  shows "\<exists>updated.
           fst (update now r ident input) = Some updated
         \<and> findById (snd (update now r ident input)) ident = Some updated
         \<and> user_id updated = (case id_key input of Some v \<Rightarrow> v | None \<Rightarrow> user_id user)
         \<and> email updated = (case email_key input of
                              Some e \<Rightarrow> toLowerCase e | None \<Rightarrow> email user)
         \<and> name updated = (case name_key input of Some v \<Rightarrow> v | None \<Rightarrow> name user)
         \<and> createdAt updated
             = (case createdAt_key input of Some v \<Rightarrow> v | None \<Rightarrow> createdAt user)
         \<and> updatedAt updated = now"
  using assms
  by (auto simp: findById_def update_def Let_def update_conv' split: option.splits)

text \<open>
  Claim C7. The claim keeps every field that the input does not provide, the
  identifier and \<open>createdAt\<close> among them. The source copies every key of the input:
  with the input \<open>{email: "new@x.io", name: undefined}\<close> the returned and stored
  user has the name \<open>undefined\<close>, and with the stored first user passed as the
  input the second user takes over its identifier and its \<open>createdAt\<close>.
\<close>

theorem update_copies_every_key:
  "fst (update 5 one_user ''1'' name_undefined)
     = Some \<lparr>user_id = JNumber 1, email = ''new@x.io'', name = JUndefined,
             createdAt = JDate 0, updatedAt = 5\<rparr>
   \<and> findById (snd (update 5 one_user ''1'' name_undefined)) ''1''
     = Some \<lparr>user_id = JNumber 1, email = ''new@x.io'', name = JUndefined,
             createdAt = JDate 0, updatedAt = 5\<rparr>
   \<and> fst (update 7 two_users ''2'' alice_as_input)
     = Some \<lparr>user_id = JNumber 1, email = ''a@x.io'', name = JString ''Alice'',
             createdAt = JDate 0, updatedAt = 7\<rparr>"
  by code_simp

section \<open>Listing users\<close>

text \<open>
  Claim C9. With the effective limit \<open>lim\<close> (\<open>input.limit\<close>, or 10 when it is absent)
  below 1 or above 100, \<open>ListUsersUseCase.execute\<close> throws a \<open>ValidationError\<close>
  whatever the repository's \<open>list\<close> would do, that is, without calling it. With
  \<open>lim\<close> from 1 to 100 it returns the page that the repository's \<open>list\<close> returns for
  \<open>lim\<close> and the effective offset, and \<open>total\<close> is the length of that page; for the
  in-memory repository the page is \<open>list(lim, off)\<close>.
\<close>

theorem ListUsersUseCase_execute_limit:
  assumes "lim = (case limit input of None \<Rightarrow> 10 | Some l \<Rightarrow> l)"
    and "off = (case offset input of None \<Rightarrow> 0 | Some k \<Rightarrow> k)"
  shows "(lim < 1 \<or> 100 < lim \<longrightarrow>
            (\<forall>list_port. ListUsersUseCase_execute list_port input
               = Inl (ValidationError ''Limit must be between 1 and 100'')))
       \<and> (1 \<le> lim \<and> lim \<le> 100 \<longrightarrow>
            (\<forall>list_port page. list_port lim off = Inr page \<longrightarrow>
               ListUsersUseCase_execute list_port input
                 = Inr \<lparr>result_users = page, total = length page\<rparr>)
          \<and> ListUsersUseCase_execute (in_memory_list r) input
              = Inr \<lparr>result_users = list_users r (Some lim) (Some off),
                     total = length (list_users r (Some lim) (Some off))\<rparr>)"
  using assms by (auto simp: ListUsersUseCase_execute_def in_memory_list_def Let_def)

theorem ListUsersUseCase_execute_limit_witness:
  "ListUsersUseCase_execute (in_memory_list three_users) \<lparr>limit = Some 0, offset = None\<rparr>
     = Inl (ValidationError ''Limit must be between 1 and 100'')
   \<and> ListUsersUseCase_execute (in_memory_list three_users) \<lparr>limit = Some 101, offset = None\<rparr>
     = Inl (ValidationError ''Limit must be between 1 and 100'')
   \<and> ListUsersUseCase_execute (in_memory_list three_users) \<lparr>limit = Some 2, offset = None\<rparr>
     = Inr \<lparr>result_users = list_users three_users (Some 2) (Some 0), total = 2\<rparr>
   \<and> length (users three_users) = 3"
proof -
  have len: "length (list_users three_users (Some 2) (Some 0)) = 2" by code_simp
  have all: "length (users three_users) = 3" by code_simp
  show ?thesis
    using ListUsersUseCase_execute_limit
        [of 0 "\<lparr>limit = Some 0, offset = None\<rparr>" 0 three_users]
      ListUsersUseCase_execute_limit
        [of 101 "\<lparr>limit = Some 101, offset = None\<rparr>" 0 three_users]
      ListUsersUseCase_execute_limit
        [of 2 "\<lparr>limit = Some 2, offset = None\<rparr>" 0 three_users]
      len all
    by simp
qed

section \<open>The controller boundary\<close>

text \<open>
  Claim C8. With the console logger, \<open>BaseController.execute\<close> always returns a tagged
  response and nothing thrown leaves it. When the wrapped computation returns \<open>v\<close>
  the response is \<open>{success: true, data: v}\<close>; when it throws an instance of \<open>Error\<close>
  the response is \<open>{success: false, error, message}\<close> with the error's name and
  message; a thrown value that is no \<open>Error\<close> gives the name \<open>UNKNOWN_ERROR\<close>.
\<close>

theorem BaseController_execute_tagged:
  fixes fn :: "thrown + 'a"
  shows "\<exists>resp console'.
           BaseController_execute (console_logger_error logLevel ts) fn console
             = (Inr resp, console')
         \<and> (\<forall>v. fn = Inr v \<longrightarrow> resp = Success v)
         \<and> (\<forall>e. fn = Inl (ErrorInstance e)
                \<longrightarrow> resp = Failure (error_name e) (error_message e))
         \<and> (fn = Inl NonError
                \<longrightarrow> resp = Failure ''UNKNOWN_ERROR'' ''An unknown error occurred'')"
proof (cases fn)
  case (Inr v)
  then show ?thesis by (simp add: BaseController_execute_def)
next
  case (Inl t)
  then show ?thesis
    by (cases t) (simp_all add: BaseController_execute_def console_logger_error_def Let_def)
qed

theorem BaseController_execute_tagged_witness:
  "fst (BaseController_execute (console_logger_error 2 ''T'') (Inr (7::nat)) [])
     = Inr (Success 7)
   \<and> fst (BaseController_execute (console_logger_error 2 ''T'')
            (Inl (ErrorInstance (ValidationError ''Invalid input'')) :: thrown + nat) [])
     = Inr (Failure ''ValidationError'' ''Invalid input'')"
proof
  from BaseController_execute_tagged [of 2 "''T''" "Inr (7::nat)" "[]"]
  show "fst (BaseController_execute (console_logger_error 2 ''T'') (Inr (7::nat)) [])
     = Inr (Success 7)"
    by auto
next
  from BaseController_execute_tagged
    [of 2 "''T''" "Inl (ErrorInstance (ValidationError ''Invalid input'')) :: thrown + nat" "[]"]
  show "fst (BaseController_execute (console_logger_error 2 ''T'')
            (Inl (ErrorInstance (ValidationError ''Invalid input'')) :: thrown + nat) [])
     = Inr (Failure ''ValidationError'' ''Invalid input'')"
    by auto
qed

section \<open>The create use case\<close>

lemma parse_email:
  "parse_string isEmail email_checks (Some e)
     = (if isEmail e \<and> 1 \<le> length e \<and> length e \<le> 255 then Some e else None)"
  by (simp add: parse_string_def email_checks_def)

lemma parse_name:
  "parse_string isEmail name_checks (Some n)
     = (if 1 \<le> length n \<and> length n \<le> 100 then Some (trim n) else None)"
  by (simp add: parse_string_def name_checks_def)

lemma safeParse_Object:
  "createUserInputSchema_safeParse isEmail (Object (Some e) (Some n))
     = (if isEmail e \<and> 1 \<le> length e \<and> length e \<le> 255 \<and> 1 \<le> length n \<and> length n \<le> 100
        then Some \<lparr>input_email = e, input_name = trim n\<rparr> else None)"
  by (simp add: createUserInputSchema_safeParse_def parse_email parse_name)

lemma safeParse_missing:
  "createUserInputSchema_safeParse isEmail NonObject = None"
  "createUserInputSchema_safeParse isEmail (Object None n') = None"
  "createUserInputSchema_safeParse isEmail (Object e' None) = None"
  by (auto simp: createUserInputSchema_safeParse_def parse_string_def split: option.splits)

lemma safeParse_email_nonempty:
  assumes "createUserInputSchema_safeParse isEmail input = Some v"
  shows "input_email v \<noteq> []"
proof (cases input)
  case NonObject
  with assms show ?thesis by (simp add: safeParse_missing)
next
  case (Object eo no)
  show ?thesis
  proof (cases eo)
    case None
    with Object assms show ?thesis by (simp add: safeParse_missing)
  next
    case (Some e)
    show ?thesis
    proof (cases no)
      case None
      with Object assms show ?thesis by (simp add: safeParse_missing)
    next
      case (Some n)
      with Object \<open>eo = Some e\<close> assms show ?thesis
        by (auto simp: safeParse_Object split: if_splits)
    qed
  qed
qed

lemma execute_ValidationError_iff:
  "(\<exists>m. fst (CreateUserUseCase_execute isEmail now r input) = Inl (ValidationError m))
     \<longleftrightarrow> createUserInputSchema_safeParse isEmail input = None"
  by (auto simp: CreateUserUseCase_execute_def case_prod_beta split: option.splits)

lemma execute_lookup_create:
  "CreateUserUseCase_execute isEmail now r input
     = (case CreateUserUseCase_lookup isEmail r input of
          Inl e \<Rightarrow> (Inl e, r)
        | Inr validated \<Rightarrow> (Inr (fst (create now r validated)), snd (create now r validated)))"
  by (simp add: CreateUserUseCase_execute_def CreateUserUseCase_lookup_def case_prod_beta
           split: option.splits)

lemma length_trim_le: "length (trim s) \<le> length s"
proof -
  have "length (trim s) \<le> length (dropWhile isWhiteSpace s)"
    unfolding trim_def using length_dropWhile_le [of isWhiteSpace "rev (dropWhile isWhiteSpace s)"]
    by simp
  also have "\<dots> \<le> length s" by (rule length_dropWhile_le)
  finally show ?thesis .
qed

text \<open>
  Claim C2. The use case throws a \<open>ValidationError\<close> exactly when the schema rejects
  the input (lemma \<open>execute_ValidationError_iff\<close>), but the schema tests the length
  of the name before it trims it (lemma \<open>safeParse_Object\<close>): a name of one blank
  passes \<open>min(1)\<close>, is trimmed to the empty string, and the user is created with an
  empty name.
\<close>

theorem whitespace_name_accepted:
  "trim '' '' = ''''
   \<and> fst (CreateUserUseCase_execute simple_email 0 new_repository
            (Object (Some ''a@b.co'') (Some '' '')))
       = Inr \<lparr>user_id = JNumber 1, email = ''a@b.co'', name = JString '''',
               createdAt = JDate 0, updatedAt = 0\<rparr>"
  by code_simp

section \<open>Uniqueness of e-mails\<close>

lemma unique_inv_new: "unique_inv new_repository"
  by (simp add: unique_inv_def counter_inv_def new_repository_def)

lemma unique_inv_create:
  assumes inv: "unique_inv r"
    and absent: "toLowerCase (input_email input) \<notin> (email \<circ> snd) ` set (users r)"
  shows "unique_inv (snd (create now r input))"
proof -
  define user where "user = fst (create now r input)"
  define r' where "r' = snd (create now r input)"
  have c: "counter_inv r" and d: "distinct (map fst (users r))"
    using inv by (simp_all add: unique_inv_def)
  have old: "\<And>i u. (i, u) \<in> set (users r) \<Longrightarrow>
               1 \<le> i \<and> toLowerCase (email u) = email u
               \<and> (email u \<noteq> [] \<longrightarrow> map_of (emailIndex r) (email u) = Some i)"
    using inv unfolding unique_inv_def by blast
  have inj: "\<And>i u j w. (i, u) \<in> set (users r) \<Longrightarrow> (j, w) \<in> set (users r)
                 \<Longrightarrow> email u = email w \<Longrightarrow> i = j"
    using inv unfolding unique_inv_def by blast
  have us: "users r' = AList.update (nextId r) user (users r)"
    by (simp add: r'_def user_def create_def Let_def)
  have ix: "map_of (emailIndex r') = (map_of (emailIndex r))(email user \<mapsto> nextId r)"
    by (simp add: r'_def user_def create_def Let_def update_conv')
  have em: "email user = toLowerCase (input_email input)"
    by (simp add: user_def create_def Let_def)
  have nobody: "\<And>i u. (i, u) \<in> set (users r) \<Longrightarrow> email u \<noteq> email user"
    using absent unfolding em by force
  have mem: "\<And>i u. (i, u) \<in> set (users r')
                 \<longleftrightarrow> (i = nextId r \<and> u = user) \<or> (i \<noteq> nextId r \<and> (i, u) \<in> set (users r))"
    unfolding us by (rule in_set_update_iff [OF d])
  have c': "counter_inv r'"
    unfolding r'_def using counter_inv_step [OF c, of "Create now input"] by simp
  have d': "distinct (map fst (users r'))"
    unfolding us using d by (rule distinct_update)
  have each: "\<forall>(i, u) \<in> set (users r').
           1 \<le> i \<and> toLowerCase (email u) = email u
           \<and> (email u \<noteq> [] \<longrightarrow> map_of (emailIndex r') (email u) = Some i)"
  proof (clarify)
    fix i u assume "(i, u) \<in> set (users r')"
    then consider "i = nextId r" "u = user" | "i \<noteq> nextId r" "(i, u) \<in> set (users r)"
      using mem by blast
    then show "1 \<le> i \<and> toLowerCase (email u) = email u
           \<and> (email u \<noteq> [] \<longrightarrow> map_of (emailIndex r') (email u) = Some i)"
    proof cases
      case 1
      then show ?thesis
        using c by (simp add: ix em toLowerCase_idem counter_inv_def)
    next
      case 2
      then show ?thesis
        using old [OF 2(2)] nobody [OF 2(2)] by (simp add: ix)
    qed
  qed
  have inj': "\<forall>(i, u) \<in> set (users r'). \<forall>(j, w) \<in> set (users r'). email u = email w \<longrightarrow> i = j"
  proof (clarify)
    fix i u j w
    assume p: "(i, u) \<in> set (users r')" and q: "(j, w) \<in> set (users r')"
      and e: "email u = email w"
    from p have pc: "(i = nextId r \<and> u = user) \<or> (i \<noteq> nextId r \<and> (i, u) \<in> set (users r))"
      using mem by simp
    from q have qc: "(j = nextId r \<and> w = user) \<or> (j \<noteq> nextId r \<and> (j, w) \<in> set (users r))"
      using mem by simp
    show "i = j"
      using pc qc e nobody inj by metis
  qed
  show ?thesis
    unfolding r'_def [symmetric] unique_inv_def using c' d' each inj' by blast
qed

lemma unique_inv_delete:
  assumes inv: "unique_inv r"
  shows "unique_inv (snd (delete r ident))"
proof (cases "parseInt ident")
  case None
  with inv show ?thesis by (simp add: delete_def)
next
  case (Some k)
  show ?thesis
  proof (cases "map_of (users r) k")
    case None
    with Some inv show ?thesis by (simp add: delete_def)
  next
    case (Some user)
    define r' where "r' = snd (delete r ident)"
    have kin: "(k, user) \<in> set (users r)" using Some by (rule map_of_SomeD)
    have us: "users r' = AList.delete k (users r)"
      and ix: "map_of (emailIndex r') = (map_of (emailIndex r))(email user := None)"
      and n: "nextId r' = nextId r"
      using Some \<open>parseInt ident = Some k\<close> by (simp_all add: r'_def delete_def delete_conv')
    have inj: "\<And>i u j w. (i, u) \<in> set (users r) \<Longrightarrow> (j, w) \<in> set (users r)
                 \<Longrightarrow> email u = email w \<Longrightarrow> i = j"
      using inv unfolding unique_inv_def by blast
    have old: "\<And>i u. (i, u) \<in> set (users r) \<Longrightarrow>
               1 \<le> i \<and> toLowerCase (email u) = email u
               \<and> (email u \<noteq> [] \<longrightarrow> map_of (emailIndex r) (email u) = Some i)"
      using inv unfolding unique_inv_def by blast
    have other: "\<And>i u. (i, u) \<in> set (users r) \<Longrightarrow> i \<noteq> k \<Longrightarrow> email u \<noteq> email user"
    proof
      fix i u assume iu: "(i, u) \<in> set (users r)" and "i \<noteq> k" and "email u = email user"
      then have "i = k" using inj kin by blast
      with \<open>i \<noteq> k\<close> show False by simp
    qed
    have c': "counter_inv r'"
      using inv by (simp add: unique_inv_def counter_inv_def n)
    have d': "distinct (map fst (users r'))"
      unfolding us using inv by (simp add: unique_inv_def distinct_delete)
    have each: "\<forall>(i, u) \<in> set (users r').
           1 \<le> i \<and> toLowerCase (email u) = email u
           \<and> (email u \<noteq> [] \<longrightarrow> map_of (emailIndex r') (email u) = Some i)"
      unfolding us using old other by (auto simp: in_set_delete_iff ix)
    have inj': "\<forall>(i, u) \<in> set (users r'). \<forall>(j, w) \<in> set (users r'). email u = email w \<longrightarrow> i = j"
      unfolding us using inj by (auto simp: in_set_delete_iff)
    show ?thesis
      unfolding r'_def [symmetric] unique_inv_def using c' d' each inj' by blast
  qed
qed

lemma unique_inv_update:
  assumes inv: "unique_inv r"
    and pre: "keeps_unique r (Repo (Update now ident input))"
  shows "unique_inv (snd (update now r ident input))"
proof (cases "parseInt ident")
  case None
  with inv show ?thesis by (simp add: update_def)
next
  case (Some k)
  show ?thesis
  proof (cases "map_of (users r) k")
    case None
    with Some inv show ?thesis by (simp add: update_def)
  next
    case (Some user)
    define r' where "r' = snd (update now r ident input)"
    define user' where "user' = the (fst (update now r ident input))"
    have kin: "(k, user) \<in> set (users r)" using Some by (rule map_of_SomeD)
    have d: "distinct (map fst (users r))" using inv by (simp add: unique_inv_def)
    have old: "\<And>i u. (i, u) \<in> set (users r) \<Longrightarrow>
               1 \<le> i \<and> toLowerCase (email u) = email u
               \<and> (email u \<noteq> [] \<longrightarrow> map_of (emailIndex r) (email u) = Some i)"
      using inv unfolding unique_inv_def by blast
    have inj: "\<And>i u j w. (i, u) \<in> set (users r) \<Longrightarrow> (j, w) \<in> set (users r)
                 \<Longrightarrow> email u = email w \<Longrightarrow> i = j"
      using inv unfolding unique_inv_def by blast
    have only: "\<And>e j w. email_key input = Some e \<Longrightarrow> (j, w) \<in> set (users r)
                  \<Longrightarrow> email w = toLowerCase e \<Longrightarrow> j = k"
      using pre \<open>parseInt ident = Some k\<close> Some
      by (auto simp: findById_def split: option.splits)
    have us: "users r' = AList.update k user' (users r)"
      and n: "nextId r' = nextId r"
      using Some \<open>parseInt ident = Some k\<close>
      by (simp_all add: r'_def user'_def update_def Let_def)
    have em: "email user' = (case email_key input of
                               Some e \<Rightarrow> toLowerCase e | None \<Rightarrow> email user)"
      using Some \<open>parseInt ident = Some k\<close> by (simp add: user'_def update_def Let_def)
    have ix: "map_of (emailIndex r') = (case email_key input of
                 Some e \<Rightarrow> if e \<noteq> [] \<and> e \<noteq> email user
                   then ((map_of (emailIndex r))(email user := None))(toLowerCase e \<mapsto> k)
                   else map_of (emailIndex r)
               | None \<Rightarrow> map_of (emailIndex r))"
      using Some \<open>parseInt ident = Some k\<close>
      by (simp add: r'_def update_def Let_def update_conv' delete_conv' split: option.splits)
    have mem: "\<And>i u. (i, u) \<in> set (users r')
                 \<longleftrightarrow> (i = k \<and> u = user') \<or> (i \<noteq> k \<and> (i, u) \<in> set (users r))"
      unfolding us by (rule in_set_update_iff [OF d])
    have other: "\<And>i u. (i, u) \<in> set (users r) \<Longrightarrow> i \<noteq> k
                   \<Longrightarrow> email u \<noteq> email user \<and> email u \<noteq> email user'"
    proof -
      fix i u assume iu: "(i, u) \<in> set (users r)" and ik: "i \<noteq> k"
      have a: "email u \<noteq> email user" using inj [OF iu kin] ik by blast
      have b: "email u \<noteq> email user'"
      proof (cases "email_key input")
        case None
        with a show ?thesis by (simp add: em)
      next
        case (Some e)
        with only [OF Some iu] ik show ?thesis by (auto simp: em)
      qed
      from a b show "email u \<noteq> email user \<and> email u \<noteq> email user'" ..
    qed
    have c': "counter_inv r'"
      using inv by (simp add: unique_inv_def counter_inv_def n)
    have d': "distinct (map fst (users r'))"
      unfolding us using d by (rule distinct_update)
    have user'_ok: "toLowerCase (email user') = email user'
           \<and> (email user' \<noteq> [] \<longrightarrow> map_of (emailIndex r') (email user') = Some k)"
    proof (cases "email_key input")
      case None
      with old [OF kin] show ?thesis by (simp add: em ix)
    next
      case (Some e)
      show ?thesis
      proof (cases "e \<noteq> [] \<and> e \<noteq> email user")
        case True
        with Some show ?thesis by (simp add: em ix toLowerCase_idem)
      next
        case False
        show ?thesis
        proof (cases "e = []")
          case True
          with Some show ?thesis by (simp add: em toLowerCase_def)
        next
          case ne: False
          with False have "e = email user" by simp
          with Some False old [OF kin] show ?thesis by (simp add: em ix)
        qed
      qed
    qed
    have each: "\<forall>(i, u) \<in> set (users r').
           1 \<le> i \<and> toLowerCase (email u) = email u
           \<and> (email u \<noteq> [] \<longrightarrow> map_of (emailIndex r') (email u) = Some i)"
    proof (clarify)
      fix i u assume "(i, u) \<in> set (users r')"
      then consider "i = k" "u = user'" | "i \<noteq> k" "(i, u) \<in> set (users r)"
        using mem by blast
      then show "1 \<le> i \<and> toLowerCase (email u) = email u
           \<and> (email u \<noteq> [] \<longrightarrow> map_of (emailIndex r') (email u) = Some i)"
      proof cases
        case 1
        with user'_ok old [OF kin] show ?thesis by simp
      next
        case 2
        have "map_of (emailIndex r') (email u) = map_of (emailIndex r) (email u)"
          using other [OF 2(2) 2(1)] by (auto simp: ix em split: option.splits)
        with old [OF 2(2)] show ?thesis by simp
      qed
    qed
    have inj': "\<forall>(i, u) \<in> set (users r'). \<forall>(j, w) \<in> set (users r'). email u = email w \<longrightarrow> i = j"
    proof (clarify)
      fix i u j w
      assume p: "(i, u) \<in> set (users r')" and q: "(j, w) \<in> set (users r')"
        and e: "email u = email w"
      from p have pc: "(i = k \<and> u = user') \<or> (i \<noteq> k \<and> (i, u) \<in> set (users r))"
        using mem by simp
      from q have qc: "(j = k \<and> w = user') \<or> (j \<noteq> k \<and> (j, w) \<in> set (users r))"
        using mem by simp
      show "i = j"
        using pc qc e other inj by metis
    qed
    show ?thesis
      unfolding r'_def [symmetric] unique_inv_def using c' d' each inj' by blast
  qed
qed

lemma findByEmail_stored:
  assumes inv: "unique_inv r" and u: "(i, u) \<in> set (users r)"
    and e: "email u = toLowerCase x" and ne: "x \<noteq> []"
  shows "findByEmail r x = Some u"
proof -
  have "email u \<noteq> []" using e ne by (simp add: toLowerCase_def)
  with inv u have ix: "map_of (emailIndex r) (email u) = Some i" and pos: "1 \<le> i"
    unfolding unique_inv_def by blast+
  have "map_of (users r) i = Some u"
    using inv u by (simp add: unique_inv_def)
  with ix pos e show ?thesis by (simp add: findByEmail_def)
qed

lemma findByEmail_None_nobody:
  assumes inv: "unique_inv r" and none: "findByEmail r x = None" and ne: "x \<noteq> []"
  shows "toLowerCase x \<notin> (email \<circ> snd) ` set (users r)"
proof
  assume "toLowerCase x \<in> (email \<circ> snd) ` set (users r)"
  then obtain i u where "(i, u) \<in> set (users r)" and "email u = toLowerCase x" by force
  then have "findByEmail r x = Some u"
    using inv ne by (simp add: findByEmail_stored)
  with none show False by simp
qed

lemma unique_inv_execute:
  assumes "unique_inv r"
  shows "unique_inv (snd (CreateUserUseCase_execute isEmail now r input))"
proof (cases "createUserInputSchema_safeParse isEmail input")
  case None
  with assms show ?thesis by (simp add: CreateUserUseCase_execute_def)
next
  case (Some v)
  show ?thesis
  proof (cases "findByEmail r (input_email v)")
    case (Some existing)
    with \<open>createUserInputSchema_safeParse isEmail input = Some v\<close> assms
    show ?thesis by (simp add: CreateUserUseCase_execute_def)
  next
    case None
    have ne: "input_email v \<noteq> []"
      by (rule safeParse_email_nonempty [OF \<open>createUserInputSchema_safeParse isEmail input = Some v\<close>])
    have "toLowerCase (input_email v) \<notin> (email \<circ> snd) ` set (users r)"
      by (rule findByEmail_None_nobody [OF assms None ne])
    then have "unique_inv (snd (create now r
        \<lparr>input_email = toLowerCase (input_email v), input_name = input_name v\<rparr>))"
      using unique_inv_create [OF assms,
          of "\<lparr>input_email = toLowerCase (input_email v), input_name = input_name v\<rparr>" now]
      by (simp add: toLowerCase_idem)
    with None \<open>createUserInputSchema_safeParse isEmail input = Some v\<close>
    show ?thesis by (simp add: CreateUserUseCase_execute_def case_prod_beta)
  qed
qed

lemma unique_inv_step:
  assumes "unique_inv r" and "keeps_unique r c"
  shows "unique_inv (client_step isEmail r c)"
proof (cases c)
  case (Execute now input)
  with assms(1) show ?thesis by (simp add: unique_inv_execute)
next
  case (Repo rc)
  show ?thesis
  proof (cases rc)
    case (Create now input)
    with Repo assms show ?thesis by (simp add: unique_inv_create)
  next
    case (Update now ident input)
    with Repo assms show ?thesis by (simp add: unique_inv_update)
  next
    case (Delete ident)
    with Repo assms(1) show ?thesis by (simp add: unique_inv_delete)
  qed
qed

lemma unique_inv_run:
  "unique_inv r \<Longrightarrow> admissible isEmail r calls \<Longrightarrow> unique_inv (run_clients isEmail r calls)"
  unfolding run_clients_def
  by (induction calls arbitrary: r) (simp_all add: unique_inv_step)

lemma unique_inv_distinct_emails:
  assumes "unique_inv r"
  shows "distinct (map (email \<circ> snd) (users r))"
proof -
  have k: "distinct (map fst (users r))" using assms by (simp add: unique_inv_def)
  then have d: "distinct (users r)" by (simp add: distinct_map)
  have "inj_on (email \<circ> snd) (set (users r))"
  proof (rule inj_onI)
    fix p q assume p: "p \<in> set (users r)" and q: "q \<in> set (users r)"
      and eq: "(email \<circ> snd) p = (email \<circ> snd) q"
    obtain i u where pi: "p = (i, u)" by (cases p)
    obtain j w where qj: "q = (j, w)" by (cases q)
    from assms p q pi qj eq have "i = j"
      unfolding unique_inv_def by fastforce
    with k p q pi qj have "u = w"
      by (metis map_of_is_SomeI option.inject)
    with \<open>i = j\<close> pi qj show "p = q" by simp
  qed
  with d show ?thesis by (simp add: distinct_map)
qed

text \<open>
  Claim C1, as amended. The repository itself does not compare e-mails; they stay
  unique as follows. Call a state well indexed (\<open>unique_inv\<close>) when the counter is
  between 1 and \<open>2^53\<close>, the keys are distinct and positive, the stored e-mails are in
  lower case and pairwise different, and every stored user with a non-empty e-mail is
  indexed under it. The new repository is well indexed. From every well-indexed state,
  take calls of \<open>CreateUserUseCase.execute\<close>, \<open>create\<close>, \<open>update\<close> and \<open>delete\<close>,
  each ended before the next one begins. If no \<open>create\<close> among them is given an
  e-mail whose lower-case form a stored user has, and no \<open>update\<close> of a stored user
  an e-mail whose lower-case form another stored user has, then the state reached is
  well indexed and no two stored users have the same e-mail. Calls of the use case
  and of \<open>delete\<close> are not restricted: the use case keeps e-mails unique by its own
  lookup, the repository only when its caller does.
\<close>

theorem emails_stay_unique:
  "unique_inv new_repository
   \<and> (unique_inv r \<and> admissible isEmail r calls
        \<longrightarrow> unique_inv (run_clients isEmail r calls)
            \<and> distinct (map (email \<circ> snd) (users (run_clients isEmail r calls))))"
  using unique_inv_new unique_inv_run [of r isEmail calls]
    unique_inv_distinct_emails [of "run_clients isEmail r calls"]
  by blast

theorem emails_stay_unique_witness:
  "map (email \<circ> snd)
     (users (run_clients simple_email new_repository
        [Execute 0 (Object (Some ''a@x.io'') (Some ''Alice'')),
         Execute 1 (Object (Some ''A@X.io'') (Some ''Twin'')),
         Execute 2 (Object (Some ''b@x.io'') (Some ''Bob'')),
         Repo (Delete ''1''),
         Execute 3 (Object (Some ''a@x.io'') (Some ''Ann'')),
         Repo (Update 4 ''2'' name_undefined),
         Repo (Create 5 carol)]))
   = [''new@x.io'', ''a@x.io'', ''c@x.io'']
   \<and> distinct (map (email \<circ> snd)
     (users (run_clients simple_email new_repository
        [Execute 0 (Object (Some ''a@x.io'') (Some ''Alice'')),
         Execute 1 (Object (Some ''A@X.io'') (Some ''Twin'')),
         Execute 2 (Object (Some ''b@x.io'') (Some ''Bob'')),
         Repo (Delete ''1''),
         Execute 3 (Object (Some ''a@x.io'') (Some ''Ann'')),
         Repo (Update 4 ''2'' name_undefined),
         Repo (Create 5 carol)])))"
proof -
  have a: "admissible simple_email new_repository
        [Execute 0 (Object (Some ''a@x.io'') (Some ''Alice'')),
         Execute 1 (Object (Some ''A@X.io'') (Some ''Twin'')),
         Execute 2 (Object (Some ''b@x.io'') (Some ''Bob'')),
         Repo (Delete ''1''),
         Execute 3 (Object (Some ''a@x.io'') (Some ''Ann'')),
         Repo (Update 4 ''2'' name_undefined),
         Repo (Create 5 carol)]"
    by code_simp
  have m: "map (email \<circ> snd)
     (users (run_clients simple_email new_repository
        [Execute 0 (Object (Some ''a@x.io'') (Some ''Alice'')),
         Execute 1 (Object (Some ''A@X.io'') (Some ''Twin'')),
         Execute 2 (Object (Some ''b@x.io'') (Some ''Bob'')),
         Repo (Delete ''1''),
         Execute 3 (Object (Some ''a@x.io'') (Some ''Ann'')),
         Repo (Update 4 ''2'' name_undefined),
         Repo (Create 5 carol)]))
   = [''new@x.io'', ''a@x.io'', ''c@x.io'']"
    by code_simp
  show ?thesis
    using emails_stay_unique [of new_repository simple_email
        "[Execute 0 (Object (Some ''a@x.io'') (Some ''Alice'')),
         Execute 1 (Object (Some ''A@X.io'') (Some ''Twin'')),
         Execute 2 (Object (Some ''b@x.io'') (Some ''Bob'')),
         Repo (Delete ''1''),
         Execute 3 (Object (Some ''a@x.io'') (Some ''Ann'')),
         Repo (Update 4 ''2'' name_undefined),
         Repo (Create 5 carol)]"] a m
    by blast
qed

text \<open>
  The repository does not look at the stored e-mails: two calls of \<open>create\<close> with
  the same e-mail store two users with it, and so does an \<open>update\<close> to the e-mail of
  another user.
\<close>

theorem create_allows_duplicate_email:
  "map (email \<circ> snd) (users (run_calls new_repository [Create 0 alice, Create 1 twin]))
     = [''a@x.io'', ''a@x.io'']
   \<and> map (email \<circ> snd)
       (users (run_calls new_repository [Create 0 alice, Create 1 bob, Update 2 ''2'' alice_as_input]))
     = [''a@x.io'', ''a@x.io'']"
  by code_simp

text \<open>
  A call of the use case is its lookup followed by \<open>create\<close>. When two calls with
  the same e-mail overlap, both lookups run on the empty repository and find nothing,
  and both calls store their user.
\<close>

lemma overlapping_calls_store_duplicate:
  "CreateUserUseCase_lookup simple_email new_repository (Object (Some ''a@x.io'') (Some ''Alice''))
     = Inr alice
   \<and> CreateUserUseCase_lookup simple_email new_repository (Object (Some ''a@x.io'') (Some ''Twin''))
     = Inr twin
   \<and> map (email \<circ> snd) (users (snd (create 1 (snd (create 0 new_repository alice)) twin)))
     = [''a@x.io'', ''a@x.io'']"
  by code_simp

text \<open>
  Where the e-mails are unique and indexed, a stored e-mail is rejected.
\<close>

lemma duplicate_email_rejected:
  assumes "unique_inv r"
    and "createUserInputSchema_safeParse isEmail (Object (Some e) (Some n)) \<noteq> None"
    and "(i, u) \<in> set (users r)"
    and "email u = toLowerCase e"
  shows "CreateUserUseCase_execute isEmail now r (Object (Some e) (Some n))
         = (Inl (Error ''User with this email already exists''), r)"
proof -
  have parsed: "createUserInputSchema_safeParse isEmail (Object (Some e) (Some n))
                  = Some \<lparr>input_email = e, input_name = trim n\<rparr>"
    using assms(2) by (simp add: safeParse_Object split: if_splits)
  then have "e \<noteq> []" using safeParse_email_nonempty [OF parsed] by simp
  then have "findByEmail r e = Some u"
    by (rule findByEmail_stored [OF assms(1) assms(3) assms(4)])
  with parsed show ?thesis
    by (simp add: CreateUserUseCase_execute_def)
qed

text \<open>
  Claim C3. The use case looks for the e-mail in the index, and \<open>delete\<close> removes
  the index entry of the deleted user's e-mail whoever it points to. After \<open>create\<close>
  has stored the same e-mail twice and the second user is deleted, the first user
  still has the e-mail but the index has lost it: the use case does not throw and
  stores a second user with it.
\<close>

theorem stored_email_accepted_again:
  "map (email \<circ> snd) (users twin_deleted) = [''a@x.io'']
   \<and> fst (CreateUserUseCase_execute simple_email 9 twin_deleted
            (Object (Some ''a@x.io'') (Some ''Ann'')))
       = Inr \<lparr>user_id = JNumber 3, email = ''a@x.io'', name = JString ''Ann'',
               createdAt = JDate 9, updatedAt = 9\<rparr>
   \<and> map (email \<circ> snd)
        (users (snd (CreateUserUseCase_execute simple_email 9 twin_deleted
                       (Object (Some ''a@x.io'') (Some ''Ann'')))))
       = [''a@x.io'', ''a@x.io'']"
  by code_simp

text \<open>
  A call with an input that the schema accepts and an e-mail that the lookup does not
  find creates the user and makes it retrievable.
\<close>

lemma execute_creates:
  assumes "isEmail e" and "1 \<le> length e" and "length e \<le> 255"
    and "1 \<le> length n" and "length n \<le> 100"
    and "findByEmail r e = None" and "counter_inv r"
  shows "\<exists>user r'.
           CreateUserUseCase_execute isEmail now r (Object (Some e) (Some n)) = (Inr user, r')
         \<and> user = \<lparr>user_id = JNumber (nextId r), email = toLowerCase e,
                    name = JString (trim n), createdAt = JDate now, updatedAt = now\<rparr>
         \<and> findById r' (numberToString (nextId r)) = Some user
         \<and> findByEmail r' (email user) = Some user
         \<and> findByEmail r' e = Some user"
proof -
  define user where "user = fst (create now r \<lparr>input_email = toLowerCase e, input_name = trim n\<rparr>)"
  define r' where "r' = snd (create now r \<lparr>input_email = toLowerCase e, input_name = trim n\<rparr>)"
  have pos: "nextId r \<noteq> 0" and bound: "\<bar>nextId r\<bar> \<le> 2 ^ 53"
    using assms(7) by (simp_all add: counter_inv_def)
  have parsed: "createUserInputSchema_safeParse isEmail (Object (Some e) (Some n))
                  = Some \<lparr>input_email = e, input_name = trim n\<rparr>"
    using assms by (simp add: safeParse_Object)
  have ex: "CreateUserUseCase_execute isEmail now r (Object (Some e) (Some n)) = (Inr user, r')"
    using parsed assms(6)
    by (simp add: CreateUserUseCase_execute_def user_def r'_def case_prod_beta)
  have fields: "user = \<lparr>user_id = JNumber (nextId r), email = toLowerCase e,
                    name = JString (trim n), createdAt = JDate now, updatedAt = now\<rparr>"
    by (simp add: user_def create_def Let_def toLowerCase_idem)
  have us: "map_of (users r') (nextId r) = Some user"
    by (simp add: r'_def user_def create_def Let_def update_conv')
  have ix: "map_of (emailIndex r') (toLowerCase e) = Some (nextId r)"
    by (simp add: r'_def create_def Let_def update_conv' toLowerCase_idem)
  have byid: "findById r' (numberToString (nextId r)) = Some user"
    using us by (simp add: findById_def parseInt_numberToString [OF bound])
  have byemail: "findByEmail r' e = Some user"
    using us ix pos by (simp add: findByEmail_def)
  have byemail': "findByEmail r' (email user) = Some user"
    using us ix pos by (simp add: findByEmail_def fields toLowerCase_idem)
  show ?thesis
    using ex fields byid byemail byemail' by blast
qed

text \<open>
  Claim C4. Two inputs that the claim counts as valid are rejected. A name of 101
  characters that trims to 100 fails \<open>max(100)\<close>, which runs before \<open>trim\<close>: the
  use case throws a \<open>ValidationError\<close>. And after an update to the empty e-mail no
  stored user has the old e-mail, but the index still has it: the use case throws
  the error for an existing e-mail.
\<close>

theorem valid_input_rejected:
  "simple_email ''a@b.co''
   \<and> findByEmail new_repository ''a@b.co'' = None
   \<and> length (trim padded_name) = 100
   \<and> CreateUserUseCase_execute simple_email 0 new_repository
        (Object (Some ''a@b.co'') (Some padded_name))
       = (Inl (ValidationError ''Invalid input''), new_repository)
   \<and> map (email \<circ> snd) (users emptied_email) = ['''']
   \<and> CreateUserUseCase_execute simple_email 9 emptied_email
        (Object (Some ''a@x.io'') (Some ''Ann''))
       = (Inl (Error ''User with this email already exists''), emptied_email)"
  by code_simp

section \<open>Pages of the list\<close>

lemma slice_nonneg:
  "0 \<le> start \<Longrightarrow> start \<le> fin
     \<Longrightarrow> slice xs start fin = take (nat (fin - start)) (drop (nat start) xs)"
  by (auto simp: slice_def Let_def min_def max_def nat_diff_distrib)

text \<open>
  Claim C6, as amended. For every repository state and all non-negative integers
  \<open>lim\<close> and \<open>off\<close>, \<open>list(lim, off)\<close> returns the stored users, in the order of the
  map (insertion order), from position \<open>off\<close> up to but not including \<open>off + lim\<close>,
  hence at most \<open>lim\<close> users; an omitted limit is 10 and an omitted offset is 0.
\<close>

theorem list_users_page:
  assumes "0 \<le> lim" and "0 \<le> off"
  shows "list_users r (Some lim) (Some off)
           = take (nat lim) (drop (nat off) (map snd (users r)))
       \<and> int (length (list_users r (Some lim) (Some off))) \<le> lim
       \<and> list_users r None None = list_users r (Some 10) (Some 0)
       \<and> list_users r (Some lim) None = list_users r (Some lim) (Some 0)
       \<and> list_users r None (Some off) = list_users r (Some 10) (Some off)"
proof -
  have page: "list_users r (Some lim) (Some off)
           = take (nat lim) (drop (nat off) (map snd (users r)))"
    using assms slice_nonneg [of off "off + lim" "map snd (users r)"]
    by (simp add: list_users_def)
  have "int (length (list_users r (Some lim) (Some off))) \<le> lim"
    unfolding page using assms by simp
  with page show ?thesis by (simp add: list_users_def)
qed

theorem list_users_page_witness:
  "map name (list_users three_users (Some 2) (Some 1)) = [JString ''Bob'', JString ''Carol'']
   \<and> list_users three_users (Some 2) (Some 1) = take 2 (drop 1 (map snd (users three_users)))
   \<and> map name (list_users three_users None None)
       = [JString ''Alice'', JString ''Bob'', JString ''Carol'']"
proof -
  have n: "map name (take 2 (drop 1 (map snd (users three_users))))
             = [JString ''Bob'', JString ''Carol'']"
    "map name (take 10 (drop 0 (map snd (users three_users))))
       = [JString ''Alice'', JString ''Bob'', JString ''Carol'']"
    by code_simp+
  have a: "(0::int) \<le> 2" "(0::int) \<le> 1" "(0::int) \<le> 10" "(0::int) \<le> 0" by simp_all
  show ?thesis
    using list_users_page [OF a(1) a(2), of three_users]
      list_users_page [OF a(3) a(4), of three_users] n
    by simp
qed

text \<open>
  With a negative limit the end of the slice counts from the end of the array: limit
  \<open>-1\<close> returns two of the three users, more than the limit. With a negative offset
  the start counts from the end: offset \<open>-1\<close> returns the last user.
\<close>

theorem list_users_negative_arguments:
  "map name (list_users three_users (Some (- 1)) (Some 0)) = [JString ''Alice'', JString ''Bob'']
   \<and> - 1 < int (length (list_users three_users (Some (- 1)) (Some 0)))
   \<and> map name (list_users three_users (Some 10) (Some (- 1))) = [JString ''Carol'']"
  by code_simp

end
